theory Spec2Isabelle
  imports Main "HOL-Library.AList" "HOL-Library.Sublist"
begin

section \<open>The XSEDE outage converter: data\<close>

text \<open>
  A shallow embedding of \<^verbatim>\<open>bin/convert_from_xsede.py\<close>: the method
  \<^verbatim>\<open>Router.Warehouse_XSEDE_News\<close> and one iteration of \<^verbatim>\<open>Router.Run\<close>.
  A Python \<^verbatim>\<open>dict\<close> is an association list in insertion order, written with
  \<open>AList.update\<close> and read with \<open>map_of\<close>; \<^verbatim>\<open>str.startswith\<close> is \<open>prefix\<close>.
\<close>

subsection \<open>Configuration (set by \<^verbatim>\<open>Router.Setup\<close>)\<close>

record router =
  NEWSURNPREFIX :: string
  INPUTURNPREFIX :: string
  AFFILIATION :: string
  PUBLISHER :: string

subsection \<open>Feed records\<close>

text \<open>
  One element \<^verbatim>\<open>p_res\<close> of the decoded feed. The keys the code only reads are
  plain fields. \<^verbatim>\<open>ResourceID\<close> and \<^verbatim>\<open>AffectedInfrastructure\<close> are optional, since the
  code itself removes the first and adds the second: \<open>None\<close> is an absent key, and
  reading an absent key raises \<^verbatim>\<open>KeyError\<close>.
\<close>

record outage =
  ID :: string
  OutageID :: string
  ResourceID :: "string option"
  OutageType :: string
  Subject :: string
  Content :: string
  OutageStart :: string
  OutageEnd :: string
  AffectedInfrastructure :: "string list option"

datatype py_exc =
  KeyError string | AttributeError | IndexError | DoesNotExist | ValueError | TypeError

subsection \<open>The store: the tables behind \<^verbatim>\<open>News\<close> and \<^verbatim>\<open>News_Associations\<close>\<close>

text \<open>
  The row types follow the fields the code writes. \<open>NewsStart\<close> and \<open>NewsEnd\<close> keep the
  text that \<^verbatim>\<open>parse_datetime\<close> is applied to. \<open>pk\<close> is the automatic primary
  key \<^verbatim>\<open>id\<close> of an association row; \<open>NewsItem\<close> is the URN of the row it refers to.
\<close>

record news_row =
  URN :: string
  NewsSubject :: string
  NewsContent :: string
  NewsStart :: string
  NewsEnd :: string
  NewsType :: string
  DistributionOptions :: "string option"
  WebURL :: string
  Affiliation :: string
  Publisher :: string

record assoc_row =
  pk :: nat
  NewsItem :: string
  AssociatedType :: string
  AssociatedID :: string

record database =
  news_tbl :: "news_row list"
  assoc_tbl :: "assoc_row list"

section \<open>Merging the records of one outage (lines 292-304)\<close>

text \<open>
  \<^verbatim>\<open>merged_obj[URN] = p_res\<close> stores a reference: the merged record \<^emph>\<open>is\<close> the first
  input record of its outage, and the two updates that follow change that input record.
  So the objects of \<^verbatim>\<open>input_obj\<close> form a store addressed by position, and
  \<^verbatim>\<open>merged_obj\<close> maps a URN to a position of that store.
\<close>

type_synonym store = "outage list"
type_synonym merged_refs = "(string \<times> nat) list"

definition make_URN :: "router \<Rightarrow> outage \<Rightarrow> string" where
  "make_URN cfg p_res = NEWSURNPREFIX cfg @ OutageID p_res"

definition is_legacy :: "router \<Rightarrow> outage \<Rightarrow> bool" where
  "is_legacy cfg p_res = prefix (INPUTURNPREFIX cfg) (ID p_res)"

definition merge_step :: "router \<Rightarrow> nat \<Rightarrow> store \<times> merged_refs \<Rightarrow> py_exc + store \<times> merged_refs" where
  "merge_step cfg i s =
     (case s of (objs, merged_obj) \<Rightarrow>
        let p_res = objs ! i in
        if \<not> is_legacy cfg p_res then Inr (objs, merged_obj)
        else
          let URN = make_URN cfg p_res in
          (case ResourceID p_res of
             None \<Rightarrow> Inl (KeyError ''ResourceID'')
           | Some RESOURCE \<Rightarrow>
               (let (objs1, merged1) =
                      (if map_of merged_obj URN = None
                       then (objs[i := p_res\<lparr>ResourceID := None, AffectedInfrastructure := Some []\<rparr>],
                             AList.update URN i merged_obj)
                       else (objs, merged_obj))
                in (case map_of merged1 URN of
                      None \<Rightarrow> Inl (KeyError URN)
                    | Some j \<Rightarrow>
                        (case AffectedInfrastructure (objs1 ! j) of
                           None \<Rightarrow> Inl (KeyError ''AffectedInfrastructure'')
                         | Some l \<Rightarrow>
                             Inr (objs1[j := (objs1 ! j)\<lparr>AffectedInfrastructure := Some (l @ [RESOURCE])\<rparr>],
                                  merged1))))))"

fun merge_loop :: "router \<Rightarrow> nat list \<Rightarrow> store \<times> merged_refs \<Rightarrow> py_exc + store \<times> merged_refs" where
  "merge_loop cfg [] s = Inr s"
| "merge_loop cfg (i # is) s =
     (case merge_step cfg i s of Inl e \<Rightarrow> Inl e | Inr s' \<Rightarrow> merge_loop cfg is s')"

definition merge_outages :: "router \<Rightarrow> outage list \<Rightarrow> py_exc + store \<times> merged_refs" where
  "merge_outages cfg input_obj = merge_loop cfg [0..<length input_obj] (input_obj, [])"

text \<open>\<^verbatim>\<open>merged_obj.items()\<close>: each URN with the object it refers to.\<close>

definition items :: "store \<Rightarrow> merged_refs \<Rightarrow> (string \<times> outage) list" where
  "items objs merged_obj = map (\<lambda>(URN, j). (URN, objs ! j)) merged_obj"

section \<open>Classification (lines 307-312)\<close>

definition TYPE_of :: "string \<Rightarrow> string" where
  "TYPE_of t =
     (if t = ''Reconfiguration'' then ''Reconfiguration''
      else if t = ''Partial'' then ''Outage Partial''
      else ''Outage Full'')"

text \<open>The row that \<^verbatim>\<open>update_or_create\<close> is asked to write (lines 313-327).\<close>

definition make_news :: "router \<Rightarrow> string \<Rightarrow> outage \<Rightarrow> news_row" where
  "make_news cfg urn p_res =
     (let news_type = TYPE_of (OutageType p_res);
          WEBURL = ''https://operations-api.access-ci.org/wh2/news/v1/id/'' @ urn @ ''/?format=html''
      in \<lparr>URN = urn,
          NewsSubject = Subject p_res,
          NewsContent = Content p_res,
          NewsStart = OutageStart p_res,
          NewsEnd = OutageEnd p_res,
          NewsType = news_type,
          DistributionOptions = None,
          WebURL = WEBURL,
          Affiliation = AFFILIATION cfg,
          Publisher = PUBLISHER cfg\<rparr>)"

section \<open>The persistence layer\<close>

text \<open>
  The calls on \<^verbatim>\<open>News\<close> and \<^verbatim>\<open>News_Associations\<close> go to Django and the database.
  What a successful call does to the tables is written out below. Whether a call raises
  one of the two exceptions the code catches is the database's decision: \<open>raises\<close> takes
  the tables and the call, and \<open>Some e\<close> means that the call raises \<open>e\<close> and changes
  nothing. \<open>cascade\<close> says whether deleting a \<^verbatim>\<open>News\<close> row also deletes the association
  rows that refer to it (the \<^verbatim>\<open>on_delete\<close> of the foreign key, which \<^verbatim>\<open>news.models\<close>
  declares). \<open>parse_datetime_raises\<close> is Django's \<^verbatim>\<open>parse_datetime\<close> as far as control goes:
  \<open>Some x\<close> means that it raises \<open>x\<close> on that text (\<^verbatim>\<open>ValueError\<close> for a well-formed text
  that is no date), which lines 332-335 do not catch; \<open>None\<close> means that it returns, and
  the row keeps the text for what it returns.
\<close>

datatype db_exc = DataError | IntegrityError

datatype db_op =
    UpsertNews string
  | SaveAssoc string string string
  | DeleteAssoc nat
  | DeleteNews string

record orm =
  raises :: "database \<Rightarrow> db_op \<Rightarrow> db_exc option"
  cascade :: bool
  parse_datetime_raises :: "string \<Rightarrow> py_exc option"

definition type_name :: "db_exc \<Rightarrow> string" where
  "type_name e = (case e of DataError \<Rightarrow> ''DataError'' | IntegrityError \<Rightarrow> ''IntegrityError'')"

text \<open>
  \<^verbatim>\<open>e.message\<close>: the program runs under Python 3 (\<^verbatim>\<open>#!/usr/bin/env python3\<close>), where an
  exception object has no attribute \<^verbatim>\<open>message\<close>; Django's \<^verbatim>\<open>DataError\<close> and
  \<^verbatim>\<open>IntegrityError\<close> define none. Reading it raises \<^verbatim>\<open>AttributeError\<close>.
\<close>

definition exc_message :: "db_exc \<Rightarrow> py_exc + string" where
  "exc_message e = Inl AttributeError"

text \<open>
  \<^verbatim>\<open>str.format\<close> with automatic numbering: the template is given as the literal
  text around its \<^verbatim>\<open>{}\<close> fields, so \<open>n + 1\<close> pieces for \<open>n\<close> fields. A field with no
  argument left raises \<^verbatim>\<open>IndexError\<close>; arguments left over are ignored.
\<close>

fun py_format :: "string list \<Rightarrow> string list \<Rightarrow> py_exc + string" where
  "py_format [] args = Inr []"
| "py_format [s] args = Inr s"
| "py_format (s # t # ss) [] = Inl IndexError"
| "py_format (s # t # ss) (a # as) =
     (case py_format (t # ss) as of Inl e \<Rightarrow> Inl e | Inr r \<Rightarrow> Inr (s @ a @ r))"

text \<open>
  The key of an association (line 341); by the comment on that line it is also what
  \<^verbatim>\<open>str\<close> gives for a stored association row (line 289).
\<close>

definition assoc_key :: "string \<Rightarrow> string \<Rightarrow> string \<Rightarrow> string" where
  "assoc_key urn assoc_type assoc_id = urn @ ''->'' @ assoc_type @ ''/'' @ assoc_id"

definition str_assoc :: "assoc_row \<Rightarrow> string" where
  "str_assoc item = assoc_key (NewsItem item) (AssociatedType item) (AssociatedID item)"

text \<open>\<^verbatim>\<open>News.objects.update_or_create(URN = URN, defaults = ...)\<close>: URN is the key of the table.\<close>

definition update_or_create :: "news_row \<Rightarrow> news_row list \<Rightarrow> news_row list" where
  "update_or_create item tbl =
     (if URN item \<in> URN ` set tbl
      then map (\<lambda>row. if URN row = URN item then item else row) tbl
      else tbl @ [item])"

text \<open>The key the database gives to a new association row: one not in the table.\<close>

definition fresh_pk :: "assoc_row list \<Rightarrow> nat" where
  "fresh_pk tbl = Suc (fold max (map pk tbl) 0)"

section \<open>Reconciliation (lines 280-290 and 306-375)\<close>

record stats =
  Update :: nat
  Delete :: nat
  Skip :: nat

text \<open>
  The state of one call: the tables, \<^verbatim>\<open>self.STATS\<close>, \<^verbatim>\<open>self.new\<close> and
  \<^verbatim>\<open>self.new_assoc\<close>. \<^verbatim>\<open>self.cur\<close> and \<^verbatim>\<open>self.cur_assoc\<close> are read once at the start
  and passed as arguments. The \<^verbatim>\<open>logger\<close> calls have no effect on the tables or on
  control, except through the evaluation of their arguments, which is modelled.
\<close>

record pass_state =
  db :: database
  STATS :: stats
  new :: "(string \<times> news_row) list"
  new_assoc :: "(string \<times> assoc_row) list"

datatype outcome = Returned bool string | Raised py_exc

datatype flow = Continue pass_state | Exit pass_state outcome

definition load_cur :: "router \<Rightarrow> database \<Rightarrow> (string \<times> news_row) list" where
  "load_cur cfg d =
     fold (\<lambda>item cur. AList.update (URN item) item cur)
       (filter (\<lambda>item. prefix (NEWSURNPREFIX cfg) (URN item)) (news_tbl d)) []"

definition load_cur_assoc :: "router \<Rightarrow> database \<Rightarrow> (string \<times> assoc_row) list" where
  "load_cur_assoc cfg d =
     fold (\<lambda>item cur_assoc. AList.update (str_assoc item) item cur_assoc)
       (filter (\<lambda>item. prefix (NEWSURNPREFIX cfg) (NewsItem item)) (assoc_tbl d)) []"

text \<open>
  The handler of lines 332-335 and 352-355: the arguments of \<^verbatim>\<open>format\<close> are evaluated
  first, then the template with four fields is filled from three arguments.
\<close>

definition on_save_error :: "string \<Rightarrow> string \<Rightarrow> db_exc \<Rightarrow> outcome" where
  "on_save_error what k e =
     (case exc_message e of
        Inl x \<Rightarrow> Raised x
      | Inr m \<Rightarrow>
          (case py_format ['''', '' saving '' @ what, '' ('', ''): '', ''''] [type_name e, k, m] of
             Inl x \<Rightarrow> Raised x
           | Inr msg \<Rightarrow> Returned False msg))"

text \<open>
  The handler of lines 363-364 and 373-374: \<open>None\<close> when the message was built and
  logged, so that the loop goes on.
\<close>

definition on_delete_error :: "string \<Rightarrow> string \<Rightarrow> db_exc \<Rightarrow> py_exc option" where
  "on_delete_error what k e =
     (case exc_message e of
        Inl x \<Rightarrow> Some x
      | Inr m \<Rightarrow>
          (case py_format ['''', '' deleting '' @ what, '': '', ''''] [type_name e, k, m] of
             Inl x \<Rightarrow> Some x
           | Inr msg \<Rightarrow> None))"

text \<open>Lines 337-355: the associations of one merged outage.\<close>

fun assoc_loop :: "orm \<Rightarrow> (string \<times> assoc_row) list \<Rightarrow> string \<Rightarrow> string list \<Rightarrow> pass_state \<Rightarrow> flow" where
  "assoc_loop pl cur_assoc urn [] s = Continue s"
| "assoc_loop pl cur_assoc urn (resource # rest) s =
     (let assoc_type = ''Resource'';
          assoc_id = resource;
          KEY = assoc_key urn assoc_type assoc_id
      in (case map_of cur_assoc KEY of
            Some item \<Rightarrow>
              assoc_loop pl cur_assoc urn rest (s\<lparr>new_assoc := AList.update KEY item (new_assoc s)\<rparr>)
          | None \<Rightarrow>
              (case raises pl (db s) (SaveAssoc urn assoc_type assoc_id) of
                 Some e \<Rightarrow> Exit s (on_save_error ''Assoc KEY='' KEY e)
               | None \<Rightarrow>
                   (let associated_item =
                          \<lparr>pk = fresh_pk (assoc_tbl (db s)), NewsItem = urn,
                           AssociatedType = assoc_type, AssociatedID = assoc_id\<rparr>
                    in assoc_loop pl cur_assoc urn rest
                         (s\<lparr>db := (db s)\<lparr>assoc_tbl := assoc_tbl (db s) @ [associated_item]\<rparr>,
                            new_assoc := AList.update KEY associated_item (new_assoc s)\<rparr>)))))"

text \<open>
  Lines 306-355: every merged outage, in the order of \<^verbatim>\<open>merged_obj\<close>. The arguments of
  \<^verbatim>\<open>update_or_create\<close> are evaluated before the call, so the two calls of
  \<^verbatim>\<open>parse_datetime\<close> come first; what they raise leaves the method.
\<close>

fun news_loop :: "router \<Rightarrow> orm \<Rightarrow> (string \<times> assoc_row) list \<Rightarrow> (string \<times> outage) list \<Rightarrow> pass_state \<Rightarrow> flow" where
  "news_loop cfg pl cur_assoc [] s = Continue s"
| "news_loop cfg pl cur_assoc ((urn, p_res) # rest) s =
     (case parse_datetime_raises pl (OutageStart p_res) of
        Some x \<Rightarrow> Exit s (Raised x)
      | None \<Rightarrow>
     (case parse_datetime_raises pl (OutageEnd p_res) of
        Some x \<Rightarrow> Exit s (Raised x)
      | None \<Rightarrow>
     (case raises pl (db s) (UpsertNews urn) of
        Some e \<Rightarrow> Exit s (on_save_error ''News URN='' urn e)
      | None \<Rightarrow>
          (let news_item = make_news cfg urn p_res;
               s1 = s\<lparr>db := (db s)\<lparr>news_tbl := update_or_create news_item (news_tbl (db s))\<rparr>,
                      new := AList.update urn news_item (new s),
                      STATS := (STATS s)\<lparr>Update := Suc (Update (STATS s))\<rparr>\<rparr>
           in (case AffectedInfrastructure p_res of
                 None \<Rightarrow> Exit s1 (Raised (KeyError ''AffectedInfrastructure''))
               | Some resources \<Rightarrow>
                   (case assoc_loop pl cur_assoc urn resources s1 of
                      Exit s2 out \<Rightarrow> Exit s2 out
                    | Continue s2 \<Rightarrow> news_loop cfg pl cur_assoc rest s2))))))"

text \<open>
  Lines 357-364. \<^verbatim>\<open>objects.get(pk = ...)\<close> raises \<^verbatim>\<open>DoesNotExist\<close>, which is not
  caught, when the table has no row with that key.
\<close>

fun delete_assoc_loop :: "orm \<Rightarrow> (string \<times> assoc_row) list \<Rightarrow> pass_state \<Rightarrow> flow" where
  "delete_assoc_loop pl [] s = Continue s"
| "delete_assoc_loop pl ((KEY, item) # rest) s =
     (if map_of (new_assoc s) KEY \<noteq> None then delete_assoc_loop pl rest s
      else if pk item \<notin> pk ` set (assoc_tbl (db s)) then Exit s (Raised DoesNotExist)
      else
        (case raises pl (db s) (DeleteAssoc (pk item)) of
           Some e \<Rightarrow>
             (case on_delete_error ''Assoc KEY='' KEY e of
                Some x \<Rightarrow> Exit s (Raised x)
              | None \<Rightarrow> delete_assoc_loop pl rest s)
         | None \<Rightarrow>
             delete_assoc_loop pl rest
               (s\<lparr>db := (db s)\<lparr>assoc_tbl := filter (\<lambda>a. pk a \<noteq> pk item) (assoc_tbl (db s))\<rparr>\<rparr>)))"

text \<open>Lines 366-374.\<close>

fun delete_news_loop :: "orm \<Rightarrow> (string \<times> news_row) list \<Rightarrow> pass_state \<Rightarrow> flow" where
  "delete_news_loop pl [] s = Continue s"
| "delete_news_loop pl ((urn, item) # rest) s =
     (if map_of (new s) urn \<noteq> None then delete_news_loop pl rest s
      else
        (case raises pl (db s) (DeleteNews urn) of
           Some e \<Rightarrow>
             (case on_delete_error ''News URN='' urn e of
                Some x \<Rightarrow> Exit s (Raised x)
              | None \<Rightarrow> delete_news_loop pl rest s)
         | None \<Rightarrow>
             delete_news_loop pl rest
               (s\<lparr>db := (db s)\<lparr>news_tbl := filter (\<lambda>n. URN n \<noteq> urn) (news_tbl (db s)),
                                assoc_tbl := (if cascade pl
                                              then filter (\<lambda>a. NewsItem a \<noteq> urn) (assoc_tbl (db s))
                                              else assoc_tbl (db s))\<rparr>,
                  STATS := (STATS s)\<lparr>Delete := Suc (Delete (STATS s))\<rparr>\<rparr>)))"

text \<open>
  \<^verbatim>\<open>Warehouse_XSEDE_News\<close>: the state after the call, and how the call ended.
\<close>

definition Warehouse_XSEDE_News ::
    "router \<Rightarrow> orm \<Rightarrow> database \<Rightarrow> stats \<Rightarrow> outage list \<Rightarrow> pass_state \<times> outcome" where
  "Warehouse_XSEDE_News cfg pl d st input_obj =
     (let cur = load_cur cfg d;
          cur_assoc = load_cur_assoc cfg d;
          s0 = \<lparr>db = d, STATS = st, new = [], new_assoc = []\<rparr>
      in (case merge_outages cfg input_obj of
            Inl x \<Rightarrow> (s0, Raised x)
          | Inr (objs, merged_obj) \<Rightarrow>
              (case news_loop cfg pl cur_assoc (items objs merged_obj) s0 of
                 Exit s out \<Rightarrow> (s, out)
               | Continue s1 \<Rightarrow>
                   (case delete_assoc_loop pl cur_assoc s1 of
                      Exit s out \<Rightarrow> (s, out)
                    | Continue s2 \<Rightarrow>
                        (case delete_news_loop pl cur s2 of
                           Exit s out \<Rightarrow> (s, out)
                         | Continue s3 \<Rightarrow> (s3, Returned True []))))))"

section \<open>One iteration of \<^verbatim>\<open>Run\<close> (lines 385-414), destination \<^verbatim>\<open>warehouse\<close>\<close>

text \<open>
  \<open>SOURCE_DATA\<close> is what \<^verbatim>\<open>Read_SOURCE\<close> or \<^verbatim>\<open>Read_Cache\<close> gave: \<open>None\<close> for Python's
  \<^verbatim>\<open>None\<close>, else the decoded list. \<^verbatim>\<open>if SOURCE_DATA:\<close> is Python's truth test, which
  \<^verbatim>\<open>None\<close> and the empty list both fail. The result is the tables, the counters
  and, when \<^verbatim>\<open>Warehouse_XSEDE_News\<close> was called, how it ended.
\<close>

definition Run_once ::
    "router \<Rightarrow> orm \<Rightarrow> database \<Rightarrow> outage list option \<Rightarrow> database \<times> stats \<times> outcome option" where
  "Run_once cfg pl d SOURCE_DATA =
     (let STATS0 = \<lparr>Update = 0, Delete = 0, Skip = 0\<rparr>
      in (case SOURCE_DATA of
            None \<Rightarrow> (d, STATS0, None)
          | Some [] \<Rightarrow> (d, STATS0, None)
          | Some (p_res # rest) \<Rightarrow>
              (case Warehouse_XSEDE_News cfg pl d STATS0 (p_res # rest) of
                 (s, out) \<Rightarrow> (db s, STATS s, Some out))))"

section \<open>Notions used in the statements\<close>

text \<open>
  \<open>same_URN cfg xs u\<close>: the records of \<open>xs\<close> that pass the filter of line 296 and get the
  URN \<open>u\<close>, in the order of \<open>xs\<close>. \<open>first_of cfg xs i\<close>: position \<open>i\<close> holds the first such
  record of its URN. \<open>first_seen\<close> lists those first records in order. \<open>merged_record\<close> is
  what the merge makes of a first record. \<open>merge_inv\<close> is the invariant of the loop of
  line 294 after \<open>k\<close> records.
\<close>

definition same_URN :: "router \<Rightarrow> outage list \<Rightarrow> string \<Rightarrow> outage list" where
  "same_URN cfg xs u = filter (\<lambda>p. is_legacy cfg p \<and> make_URN cfg p = u) xs"

definition first_of :: "router \<Rightarrow> outage list \<Rightarrow> nat \<Rightarrow> bool" where
  "first_of cfg xs i =
     (i < length xs \<and> is_legacy cfg (xs ! i) \<and>
      (\<forall>j<i. is_legacy cfg (xs ! j) \<longrightarrow> make_URN cfg (xs ! j) \<noteq> make_URN cfg (xs ! i)))"

definition merged_record :: "router \<Rightarrow> outage list \<Rightarrow> outage \<Rightarrow> outage" where
  "merged_record cfg xs p =
     p\<lparr>ResourceID := None,
       AffectedInfrastructure := Some (List.map_filter ResourceID (same_URN cfg xs (make_URN cfg p)))\<rparr>"

fun first_seen :: "router \<Rightarrow> string list \<Rightarrow> outage list \<Rightarrow> outage list" where
  "first_seen cfg seen [] = []"
| "first_seen cfg seen (p # ps) =
     (if is_legacy cfg p \<and> make_URN cfg p \<notin> set seen
      then p # first_seen cfg (make_URN cfg p # seen) ps
      else first_seen cfg seen ps)"

definition merge_inv :: "router \<Rightarrow> outage list \<Rightarrow> nat \<Rightarrow> store \<Rightarrow> merged_refs \<Rightarrow> bool" where
  "merge_inv cfg inp k objs mo =
     (length objs = length inp \<and>
      distinct (map fst mo) \<and>
      (\<forall>u j. (u, j) \<in> set mo \<longleftrightarrow> first_of cfg (take k inp) j \<and> make_URN cfg (inp ! j) = u) \<and>
      map (\<lambda>(u, j). inp ! j) mo = first_seen cfg [] (take k inp) \<and>
      (\<forall>i<length inp. objs ! i =
         (if first_of cfg (take k inp) i then merged_record cfg (take k inp) (inp ! i) else inp ! i)))"

subsection \<open>The example of the specification\<close>

definition ex_cfg :: router where
  "ex_cfg = \<lparr>NEWSURNPREFIX = ''urn:ogf:glue2:access-ci.org:news:'', INPUTURNPREFIX = ''xsede:'',
             AFFILIATION = ''access-ci.org'', PUBLISHER = ''XSEDE''\<rparr>"

definition ex_r1 :: outage where
  "ex_r1 = \<lparr>ID = ''xsede:1'', OutageID = ''A'', ResourceID = Some ''r1'', OutageType = ''Partial'',
     Subject = ''S'', Content = ''C'', OutageStart = ''2023-01-01T00:00:00'',
     OutageEnd = ''2023-01-02T00:00:00'', AffectedInfrastructure = None\<rparr>"

definition ex_r2 :: outage where
  "ex_r2 = ex_r1\<lparr>ResourceID := Some ''r2'', Subject := ''ignored''\<rparr>"

definition ex_other :: outage where
  "ex_other = ex_r1\<lparr>ID := ''access:7'', OutageID := ''B'', ResourceID := Some ''r9''\<rparr>"

subsection \<open>Notions for the reconciliation\<close>

text \<open>
  \<open>merged_keys its\<close>: the association keys of the merged outages \<open>its\<close>, one for each
  pair of a URN and a resource of its list. \<open>no_key_clash\<close>: a stored association whose key is
  the key of a merged pair belongs to the news item of that pair (the key is a plain
  concatenation, so two different associations can share it). \<open>saved\<close> and \<open>upserted\<close>
  name the state after a successful \<^verbatim>\<open>save\<close> of a new association and after a
  successful \<^verbatim>\<open>update_or_create\<close>.
\<close>

definition merged_keys :: "(string \<times> outage) list \<Rightarrow> string set" where
  "merged_keys its =
     {assoc_key u ''Resource'' r | u p rs r.
        (u, p) \<in> set its \<and> AffectedInfrastructure p = Some rs \<and> r \<in> set rs}"

definition no_key_clash :: "router \<Rightarrow> database \<Rightarrow> (string \<times> outage) list \<Rightarrow> bool" where
  "no_key_clash cfg d its =
     (\<forall>a\<in>set (assoc_tbl d). \<forall>u p rs r.
        prefix (NEWSURNPREFIX cfg) (NewsItem a) \<and> (u, p) \<in> set its \<and>
        AffectedInfrastructure p = Some rs \<and> r \<in> set rs \<and>
        str_assoc a = assoc_key u ''Resource'' r \<longrightarrow> NewsItem a = u)"

definition saved :: "pass_state \<Rightarrow> string \<Rightarrow> string \<Rightarrow> pass_state" where
  "saved s u r =
     (let item = \<lparr>pk = fresh_pk (assoc_tbl (db s)), NewsItem = u,
                   AssociatedType = ''Resource'', AssociatedID = r\<rparr>
      in s\<lparr>db := (db s)\<lparr>assoc_tbl := assoc_tbl (db s) @ [item]\<rparr>,
           new_assoc := AList.update (assoc_key u ''Resource'' r) item (new_assoc s)\<rparr>)"

definition upserted :: "router \<Rightarrow> pass_state \<Rightarrow> string \<Rightarrow> outage \<Rightarrow> pass_state" where
  "upserted cfg s u p =
     s\<lparr>db := (db s)\<lparr>news_tbl := update_or_create (make_news cfg u p) (news_tbl (db s))\<rparr>,
       new := AList.update u (make_news cfg u p) (new s),
       STATS := (STATS s)\<lparr>Update := Suc (Update (STATS s))\<rparr>\<rparr>"

subsection \<open>Stores and persistence layers of the examples\<close>

definition no_stats :: stats where
  "no_stats = \<lparr>Update = 0, Delete = 0, Skip = 0\<rparr>"

definition empty_db :: database where
  "empty_db = \<lparr>news_tbl = [], assoc_tbl = []\<rparr>"

definition ex_b :: outage where
  "ex_b = ex_r1\<lparr>OutageID := ''B'', ResourceID := Some ''r3''\<rparr>"


definition pl_ok :: orm where
  "pl_ok = \<lparr>raises = (\<lambda>d c. None), cascade = True, parse_datetime_raises = (\<lambda>t. None)\<rparr>"

definition pl_upsert_B_fails :: orm where
  "pl_upsert_B_fails =
     \<lparr>raises = (\<lambda>d c. if c = UpsertNews ''urn:ogf:glue2:access-ci.org:news:B''
                       then Some IntegrityError else None),
      cascade = True, parse_datetime_raises = (\<lambda>t. None)\<rparr>"

definition pl_delete_assoc_fails :: orm where
  "pl_delete_assoc_fails =
     \<lparr>raises = (\<lambda>d c. case c of DeleteAssoc i \<Rightarrow> Some IntegrityError | _ \<Rightarrow> None),
      cascade = True, parse_datetime_raises = (\<lambda>t. None)\<rparr>"

definition pl_unique :: orm where
  "pl_unique =
     \<lparr>raises = (\<lambda>d c. case c of
                  SaveAssoc u t i \<Rightarrow>
                    (if (u, t, i) \<in> (\<lambda>a. (NewsItem a, AssociatedType a, AssociatedID a)) ` set (assoc_tbl d)
                     then Some IntegrityError else None)
                | _ \<Rightarrow> None),
      cascade = True, parse_datetime_raises = (\<lambda>t. None)\<rparr>"

definition ex_news_A :: news_row where
  "ex_news_A = make_news ex_cfg ''urn:ogf:glue2:access-ci.org:news:A'' ex_r1"

definition ex_assoc :: "nat \<Rightarrow> string \<Rightarrow> assoc_row" where
  "ex_assoc i r = \<lparr>pk = i, NewsItem = ''urn:ogf:glue2:access-ci.org:news:A'',
                   AssociatedType = ''Resource'', AssociatedID = r\<rparr>"

definition ex_db1 :: database where
  "ex_db1 = \<lparr>news_tbl = [ex_news_A], assoc_tbl = [ex_assoc 1 ''r1'', ex_assoc 2 ''r2'']\<rparr>"

definition ex_clash1 :: outage where
  "ex_clash1 = ex_r1\<lparr>OutageID := ''A->Resource/x'', ResourceID := Some ''y''\<rparr>"

definition ex_clash2 :: outage where
  "ex_clash2 = ex_r1\<lparr>ResourceID := Some ''x->Resource/y''\<rparr>"

definition dup_db :: database where
  "dup_db = \<lparr>news_tbl = [ex_news_A], assoc_tbl = [ex_assoc 1 ''r1'', ex_assoc 2 ''r1'']\<rparr>"

definition clash_db :: database where
  "clash_db =
     \<lparr>news_tbl = [make_news ex_cfg ''urn:ogf:glue2:access-ci.org:news:A->Resource/x'' ex_clash1],
      assoc_tbl = [\<lparr>pk = 1, NewsItem = ''urn:ogf:glue2:access-ci.org:news:A->Resource/x'',
                    AssociatedType = ''Resource'', AssociatedID = ''y''\<rparr>]\<rparr>"

section \<open>The merge: the loop invariant\<close>

lemma merge_loop_append:
  "merge_loop cfg (xs @ ys) s =
     (case merge_loop cfg xs s of Inl e \<Rightarrow> Inl e | Inr s' \<Rightarrow> merge_loop cfg ys s')"
  by (induction xs arbitrary: s) (auto split: sum.splits)

lemma same_URN_snoc:
  "same_URN cfg (xs @ [x]) u = same_URN cfg xs u @ (if is_legacy cfg x \<and> make_URN cfg x = u then [x] else [])"
  by (simp add: same_URN_def)

lemma first_seen_snoc:
  "first_seen cfg seen (xs @ [x]) =
     first_seen cfg seen xs @
     (if is_legacy cfg x \<and> make_URN cfg x \<notin> set seen \<and> same_URN cfg xs (make_URN cfg x) = []
      then [x] else [])"
  by (induction xs arbitrary: seen) (auto simp: same_URN_def)

lemma first_of_snoc:
  "first_of cfg (xs @ [x]) i \<longleftrightarrow>
     first_of cfg xs i \<or>
     (i = length xs \<and> is_legacy cfg x \<and> same_URN cfg xs (make_URN cfg x) = [])"
proof (cases "i < length xs")
  case True
  then show ?thesis by (auto simp: first_of_def nth_append)
next
  case False
  have "(\<forall>j<length xs. is_legacy cfg (xs ! j) \<longrightarrow> make_URN cfg (xs ! j) \<noteq> make_URN cfg x)
        \<longleftrightarrow> same_URN cfg xs (make_URN cfg x) = []"
    by (auto simp: same_URN_def filter_empty_conv in_set_conv_nth) (metis nth_mem)
  with False show ?thesis
    by (auto simp: first_of_def nth_append less_Suc_eq)
qed

lemma first_of_exists:
  assumes "p \<in> set xs" "is_legacy cfg p"
  shows "\<exists>j. first_of cfg xs j \<and> make_URN cfg (xs ! j) = make_URN cfg p"
proof -
  let ?P = "\<lambda>j. j < length xs \<and> is_legacy cfg (xs ! j) \<and> make_URN cfg (xs ! j) = make_URN cfg p"
  from assms obtain i where "?P i" by (auto simp: in_set_conv_nth)
  then have "?P (LEAST j. ?P j)" by (rule LeastI)
  moreover have "\<And>j. j < (LEAST j. ?P j) \<Longrightarrow> \<not> ?P j" by (rule not_less_Least)
  ultimately show ?thesis
    unfolding first_of_def
    by (intro exI[of _ "LEAST j. ?P j"]) (metis (no_types, lifting) order.strict_trans)
qed

lemma first_of_unique:
  "first_of cfg xs i \<Longrightarrow> first_of cfg xs j \<Longrightarrow> make_URN cfg (xs ! i) = make_URN cfg (xs ! j) \<Longrightarrow> i = j"
  unfolding first_of_def by (metis nat_neq_iff)

lemma same_URN_empty_iff:
  "same_URN cfg xs u = [] \<longleftrightarrow> \<not> (\<exists>j. first_of cfg xs j \<and> make_URN cfg (xs ! j) = u)"
proof
  assume "same_URN cfg xs u = []"
  then show "\<not> (\<exists>j. first_of cfg xs j \<and> make_URN cfg (xs ! j) = u)"
    by (auto simp: same_URN_def filter_empty_conv first_of_def)
next
  assume *: "\<not> (\<exists>j. first_of cfg xs j \<and> make_URN cfg (xs ! j) = u)"
  show "same_URN cfg xs u = []"
  proof (rule ccontr)
    assume "same_URN cfg xs u \<noteq> []"
    then obtain p where "p \<in> set xs" "is_legacy cfg p" "make_URN cfg p = u"
      by (auto simp: same_URN_def filter_empty_conv)
    with first_of_exists[of p xs cfg] * show False by auto
  qed
qed


lemma map_of_refs:
  assumes "merge_inv cfg inp k objs mo"
  shows "map_of mo u = Some j \<longleftrightarrow> first_of cfg (take k inp) j \<and> make_URN cfg (inp ! j) = u"
  using assms unfolding merge_inv_def by (metis map_of_eq_Some_iff)

lemma map_of_refs_None:
  assumes "merge_inv cfg inp k objs mo"
  shows "map_of mo u = None \<longleftrightarrow> same_URN cfg (take k inp) u = []"
proof -
  have "map_of mo u = None \<longleftrightarrow> \<not> (\<exists>j. map_of mo u = Some j)" by auto
  also have "\<dots> \<longleftrightarrow> \<not> (\<exists>j. first_of cfg (take k inp) j \<and> make_URN cfg (inp ! j) = u)"
    by (simp add: map_of_refs[OF assms])
  also have "\<dots> \<longleftrightarrow> \<not> (\<exists>j. first_of cfg (take k inp) j \<and> make_URN cfg (take k inp ! j) = u)"
    by (auto simp: first_of_def)
  finally show ?thesis by (simp add: same_URN_empty_iff)
qed

lemma merge_step_skip:
  assumes inv: "merge_inv cfg inp k objs mo" and k: "k < length inp"
    and nl: "\<not> is_legacy cfg (inp ! k)"
  shows "merge_step cfg k (objs, mo) = Inr (objs, mo) \<and> merge_inv cfg inp (Suc k) objs mo"
proof -
  have nf: "\<not> first_of cfg (take k inp) k" by (simp add: first_of_def)
  have ok: "objs ! k = inp ! k" using inv k nf by (simp add: merge_inv_def)
  have tk: "take (Suc k) inp = take k inp @ [inp ! k]" using k by (simp add: take_Suc_conv_app_nth)
  have f: "\<And>i. first_of cfg (take (Suc k) inp) i = first_of cfg (take k inp) i"
    using nl by (simp add: tk first_of_snoc)
  have g: "\<And>u. same_URN cfg (take (Suc k) inp) u = same_URN cfg (take k inp) u"
    using nl by (simp add: tk same_URN_snoc)
  have h: "first_seen cfg [] (take (Suc k) inp) = first_seen cfg [] (take k inp)"
    using nl by (simp add: tk first_seen_snoc)
  show ?thesis using inv ok nl by (simp add: merge_step_def merge_inv_def f merged_record_def g h)
qed


lemma update_fresh: "map_of al k = None \<Longrightarrow> AList.update k v al = al @ [(k, v)]"
  by (induction al) (auto split: if_splits)

lemma map_filter_snoc:
  "List.map_filter f (xs @ [x]) = List.map_filter f xs @ (case f x of None \<Rightarrow> [] | Some y \<Rightarrow> [y])"
  by (simp add: List.map_filter_def split: option.splits)

lemma first_of_same_URN:
  "first_of cfg xs i \<Longrightarrow> same_URN cfg xs (make_URN cfg (xs ! i)) \<noteq> []"
  by (auto simp: first_of_def same_URN_def filter_empty_conv)

lemma merge_step_new:
  assumes inv: "merge_inv cfg inp k objs mo" and k: "k < length inp"
    and l: "is_legacy cfg (inp ! k)" and r: "ResourceID (inp ! k) = Some r"
    and new: "same_URN cfg (take k inp) (make_URN cfg (inp ! k)) = []"
  shows "\<exists>objs' mo'. merge_step cfg k (objs, mo) = Inr (objs', mo') \<and> merge_inv cfg inp (Suc k) objs' mo'"
proof -
  let ?u = "make_URN cfg (inp ! k)"
  let ?objs' = "objs[k := (inp ! k)\<lparr>ResourceID := None, AffectedInfrastructure := Some [r]\<rparr>]"
  let ?mo' = "mo @ [(?u, k)]"
  have len: "length objs = length inp" using inv by (simp add: merge_inv_def)
  have nf: "\<not> first_of cfg (take k inp) k" by (simp add: first_of_def)
  have ok: "objs ! k = inp ! k" using inv k nf by (simp add: merge_inv_def)
  have tk: "take (Suc k) inp = take k inp @ [inp ! k]" using k by (simp add: take_Suc_conv_app_nth)
  have none: "map_of mo ?u = None" using map_of_refs_None[OF inv] new by simp
  have upd: "AList.update ?u k mo = ?mo'" using none by (rule update_fresh)
  have "merge_step cfg k (objs, mo) = Inr (?objs', AList.update ?u k mo)"
    using ok l r none k len by (simp add: merge_step_def Let_def AList.update_conv')
  then have step: "merge_step cfg k (objs, mo) = Inr (?objs', ?mo')"
    by (simp only: upd)
  have g: "\<And>u. same_URN cfg (take (Suc k) inp) u =
      same_URN cfg (take k inp) u @ (if make_URN cfg (inp ! k) = u then [inp ! k] else [])"
    using l by (simp add: tk same_URN_snoc)
  have f: "\<And>i. first_of cfg (take (Suc k) inp) i \<longleftrightarrow> first_of cfg (take k inp) i \<or> i = k"
    using l new k by (simp add: tk first_of_snoc min_def)
  have d: "distinct (map fst ?mo')"
    using inv none by (auto simp: merge_inv_def map_of_eq_None_iff)
  have m: "\<forall>u j. (u, j) \<in> set ?mo' \<longleftrightarrow> first_of cfg (take (Suc k) inp) j \<and> make_URN cfg (inp ! j) = u"
    using inv by (auto simp: merge_inv_def f)
  have o: "\<forall>i<length inp. ?objs' ! i =
         (if first_of cfg (take (Suc k) inp) i then merged_record cfg (take (Suc k) inp) (inp ! i) else inp ! i)"
  proof (intro allI impI)
    fix i assume i: "i < length inp"
    show "?objs' ! i =
         (if first_of cfg (take (Suc k) inp) i then merged_record cfg (take (Suc k) inp) (inp ! i) else inp ! i)"
    proof (cases "i = k")
      case True
      then show ?thesis using k len l r new
        by (simp add: f merged_record_def g map_filter_snoc List.map_filter_simps)
    next
      case False
      have old: "objs ! i = (if first_of cfg (take k inp) i then merged_record cfg (take k inp) (inp ! i) else inp ! i)"
        using inv i by (simp add: merge_inv_def)
      show ?thesis
      proof (cases "first_of cfg (take k inp) i")
        case True
        then have "i < k" by (simp add: first_of_def)
        with first_of_same_URN[OF True] new have "make_URN cfg (inp ! i) \<noteq> ?u" by auto
        then show ?thesis using False True old
          by (simp add: f merged_record_def g)
      next
        case nfi: False
        then show ?thesis using False old by (simp add: f)
      qed
    qed
  qed
  have h: "map (\<lambda>(u, j). inp ! j) ?mo' = first_seen cfg [] (take (Suc k) inp)"
    using inv l new by (simp add: merge_inv_def tk first_seen_snoc)
  show ?thesis using step len d m o h unfolding merge_inv_def by (intro exI[of _ ?objs'] exI[of _ ?mo']) simp
qed

lemma merge_step_old:
  assumes inv: "merge_inv cfg inp k objs mo" and k: "k < length inp"
    and l: "is_legacy cfg (inp ! k)" and r: "ResourceID (inp ! k) = Some r"
    and old: "same_URN cfg (take k inp) (make_URN cfg (inp ! k)) \<noteq> []"
  shows "\<exists>objs' mo'. merge_step cfg k (objs, mo) = Inr (objs', mo') \<and> merge_inv cfg inp (Suc k) objs' mo'"
proof -
  let ?u = "make_URN cfg (inp ! k)"
  have len: "length objs = length inp" using inv by (simp add: merge_inv_def)
  have nf: "\<not> first_of cfg (take k inp) k" by (simp add: first_of_def)
  have ok: "objs ! k = inp ! k" using inv k nf by (simp add: merge_inv_def)
  have tk: "take (Suc k) inp = take k inp @ [inp ! k]" using k by (simp add: take_Suc_conv_app_nth)
  from old map_of_refs_None[OF inv, of ?u] obtain j where j: "map_of mo ?u = Some j" by auto
  then have fj: "first_of cfg (take k inp) j" and uj: "make_URN cfg (inp ! j) = ?u"
    using map_of_refs[OF inv] by auto
  have jk: "j < k" using fj by (simp add: first_of_def)
  have oj: "objs ! j = merged_record cfg (take k inp) (inp ! j)"
    using inv fj jk k by (simp add: merge_inv_def)
  let ?l = "List.map_filter ResourceID (same_URN cfg (take k inp) ?u)"
  let ?objs' = "objs[j := (objs ! j)\<lparr>AffectedInfrastructure := Some (?l @ [r])\<rparr>]"
  have step: "merge_step cfg k (objs, mo) = Inr (?objs', mo)"
    using ok l r j oj uj by (simp add: merge_step_def Let_def merged_record_def)
  have g: "\<And>u. same_URN cfg (take (Suc k) inp) u =
      same_URN cfg (take k inp) u @ (if make_URN cfg (inp ! k) = u then [inp ! k] else [])"
    using l by (simp add: tk same_URN_snoc)
  have f: "\<And>i. first_of cfg (take (Suc k) inp) i \<longleftrightarrow> first_of cfg (take k inp) i"
    using l old k by (simp add: tk first_of_snoc)
  have o: "\<forall>i<length inp. ?objs' ! i =
         (if first_of cfg (take (Suc k) inp) i then merged_record cfg (take (Suc k) inp) (inp ! i) else inp ! i)"
  proof (intro allI impI)
    fix i assume i: "i < length inp"
    have oi: "objs ! i = (if first_of cfg (take k inp) i then merged_record cfg (take k inp) (inp ! i) else inp ! i)"
      using inv i by (simp add: merge_inv_def)
    show "?objs' ! i =
         (if first_of cfg (take (Suc k) inp) i then merged_record cfg (take (Suc k) inp) (inp ! i) else inp ! i)"
    proof (cases "i = j")
      case True
      then show ?thesis using jk k len l r fj uj oj
        by (simp add: f merged_record_def g map_filter_snoc)
    next
      case False
      show ?thesis
      proof (cases "first_of cfg (take k inp) i")
        case True
        then have ik: "i < k" by (simp add: first_of_def)
        have "make_URN cfg (inp ! i) \<noteq> ?u"
        proof
          assume "make_URN cfg (inp ! i) = ?u"
          then have "make_URN cfg (take k inp ! i) = make_URN cfg (take k inp ! j)"
            using ik jk uj by simp
          from first_of_unique[OF True fj this] False show False by simp
        qed
        then show ?thesis using False True oi
          by (simp add: f merged_record_def g)
      next
        case nfi: False
        then show ?thesis using False oi by (simp add: f)
      qed
    qed
  qed
  have h: "first_seen cfg [] (take (Suc k) inp) = first_seen cfg [] (take k inp)"
    using old by (simp add: tk first_seen_snoc)
  show ?thesis using step len inv o unfolding merge_inv_def by (intro exI[of _ ?objs'] exI[of _ mo]) (simp add: f h)
qed

lemma merge_step_inv:
  assumes inv: "merge_inv cfg inp k objs mo" and k: "k < length inp"
    and r: "ResourceID (inp ! k) \<noteq> None"
  shows "\<exists>objs' mo'. merge_step cfg k (objs, mo) = Inr (objs', mo') \<and> merge_inv cfg inp (Suc k) objs' mo'"
proof (cases "is_legacy cfg (inp ! k)")
  case False
  with merge_step_skip[OF inv k] show ?thesis by blast
next
  case True
  from r obtain x where "ResourceID (inp ! k) = Some x" by auto
  with True merge_step_new[OF inv k] merge_step_old[OF inv k] show ?thesis by blast
qed

lemma merge_inv_0: "merge_inv cfg inp 0 inp []"
  by (simp add: merge_inv_def first_of_def)


lemma merge_loop_inv:
  assumes r: "\<forall>p\<in>set inp. ResourceID p \<noteq> None" and k: "k \<le> length inp"
  shows "\<exists>objs mo. merge_loop cfg [0..<k] (inp, []) = Inr (objs, mo) \<and> merge_inv cfg inp k objs mo"
  using k
proof (induction k)
  case 0
  then show ?case by (simp add: merge_inv_0)
next
  case (Suc k)
  then obtain objs mo where loop: "merge_loop cfg [0..<k] (inp, []) = Inr (objs, mo)"
    and inv: "merge_inv cfg inp k objs mo" by auto
  have "ResourceID (inp ! k) \<noteq> None" using r Suc.prems by simp
  from merge_step_inv[OF inv _ this] Suc.prems obtain objs' mo'
    where "merge_step cfg k (objs, mo) = Inr (objs', mo')" "merge_inv cfg inp (Suc k) objs' mo'"
    by auto
  then show ?case using loop by (auto simp: merge_loop_append)
qed

lemma merge_outages_inv:
  assumes "\<forall>p\<in>set inp. ResourceID p \<noteq> None"
  shows "\<exists>objs mo. merge_outages cfg inp = Inr (objs, mo) \<and> merge_inv cfg inp (length inp) objs mo"
  using merge_loop_inv[OF assms, of "length inp"] by (simp add: merge_outages_def)


lemma items_merged:
  assumes inv: "merge_inv cfg inp (length inp) objs mo"
  shows "items objs mo = map (\<lambda>p. (make_URN cfg p, merged_record cfg inp p)) (first_seen cfg [] inp)"
proof -
  have "\<And>u j. (u, j) \<in> set mo \<Longrightarrow> (u, objs ! j) = (make_URN cfg (inp ! j), merged_record cfg inp (inp ! j))"
    using inv by (auto simp: merge_inv_def first_of_def)
  then have "items objs mo = map (\<lambda>(u, j). (make_URN cfg (inp ! j), merged_record cfg inp (inp ! j))) mo"
    unfolding items_def by (intro map_cong) auto
  also have "\<dots> = map (\<lambda>p. (make_URN cfg p, merged_record cfg inp p)) (map (\<lambda>(u, j). inp ! j) mo)"
    by (simp add: case_prod_unfold comp_def)
  also have "map (\<lambda>(u, j). inp ! j) mo = first_seen cfg [] inp"
    using inv by (simp add: merge_inv_def)
  finally show ?thesis .
qed

lemma first_seen_filter:
  "first_seen cfg seen (filter (is_legacy cfg) xs) = first_seen cfg seen xs"
  by (induction xs arbitrary: seen) auto

lemma same_URN_filter: "same_URN cfg (filter (is_legacy cfg) xs) u = same_URN cfg xs u"
  by (auto simp: same_URN_def intro: filter_cong)

lemma first_seen_set:
  "make_URN cfg ` set (first_seen cfg seen xs) = make_URN cfg ` set (filter (is_legacy cfg) xs) - set seen"
  by (induction xs arbitrary: seen) auto

lemma first_seen_distinct: "distinct (map (make_URN cfg) (first_seen cfg seen xs))"
proof (induction xs arbitrary: seen)
  case Nil
  then show ?case by simp
next
  case (Cons p ps)
  have "make_URN cfg p \<notin> make_URN cfg ` set (first_seen cfg (make_URN cfg p # seen) ps)"
    by (simp add: first_seen_set)
  with Cons show ?case by simp
qed

lemma inj_make_URN: "make_URN cfg p = make_URN cfg q \<longleftrightarrow> OutageID p = OutageID q"
  by (simp add: make_URN_def)

lemma length_first_seen:
  "length (first_seen cfg [] xs) = card (OutageID ` set (filter (is_legacy cfg) xs))"
proof -
  have "length (first_seen cfg [] xs) = length (map (make_URN cfg) (first_seen cfg [] xs))" by simp
  also have "\<dots> = card (set (map (make_URN cfg) (first_seen cfg [] xs)))"
    using first_seen_distinct by (rule distinct_card[symmetric])
  also have "\<dots> = card (make_URN cfg ` set (filter (is_legacy cfg) xs))"
    using first_seen_set[of cfg "[]" xs] by simp
  also have "\<dots> = card ((\<lambda>s. NEWSURNPREFIX cfg @ s) ` OutageID ` set (filter (is_legacy cfg) xs))"
    by (simp add: image_image make_URN_def)
  also have "\<dots> = card (OutageID ` set (filter (is_legacy cfg) xs))"
    by (rule card_image) (simp add: inj_on_def)
  finally show ?thesis .
qed


lemma same_URN_by_id:
  "same_URN cfg xs (NEWSURNPREFIX cfg @ oid) = filter (\<lambda>q. is_legacy cfg q \<and> OutageID q = oid) xs"
  by (simp add: same_URN_def make_URN_def)

lemma lookup_items:
  "map_of (items objs mo) u = map_option (\<lambda>j. objs ! j) (map_of mo u)"
  by (simp add: items_def map_of_map)

lemma lookup_merged:
  assumes inv: "merge_inv cfg inp (length inp) objs mo" and f: "first_of cfg inp i"
  shows "map_of (items objs mo) (make_URN cfg (inp ! i)) = Some (merged_record cfg inp (inp ! i))"
proof -
  have "map_of mo (make_URN cfg (inp ! i)) = Some i"
    using map_of_refs[OF inv, of "make_URN cfg (inp ! i)" i] f by simp
  moreover have "objs ! i = merged_record cfg inp (inp ! i)"
    using inv f by (simp add: merge_inv_def first_of_def)
  ultimately show ?thesis by (simp add: lookup_items)
qed

lemma lookup_none:
  assumes inv: "merge_inv cfg inp (length inp) objs mo" and g: "same_URN cfg inp u = []"
  shows "map_of (items objs mo) u = None"
  using map_of_refs_None[OF inv, of u] g by (simp add: lookup_items)

lemma map_filter_all:
  "\<forall>x\<in>set xs. f x \<noteq> None \<Longrightarrow> map Some (List.map_filter f xs) = map f xs"
  by (induction xs) (auto simp: List.map_filter_simps)

lemma ex_merge:
  "merge_outages ex_cfg [ex_r1, ex_other, ex_r2] =
     Inr ([ex_r1\<lparr>ResourceID := None, AffectedInfrastructure := Some [''r1'', ''r2'']\<rparr>, ex_other, ex_r2],
          [(''urn:ogf:glue2:access-ci.org:news:A'', 0)])"
  by (simp add: merge_outages_def merge_step_def is_legacy_def make_URN_def ex_cfg_def ex_r1_def
        ex_r2_def ex_other_def upt_rec)

section \<open>The merge: the claims\<close>

text \<open>
  Claim C6. For every batch whose records carry a \<^verbatim>\<open>ResourceID\<close>, the merge returns, and
  the number of merged outages is the number of distinct \<^verbatim>\<open>OutageID\<close> values among the
  records whose \<^verbatim>\<open>ID\<close> starts with the input prefix. The records without that prefix
  contribute nothing: the merged outages are those of the batch with these records removed.
\<close>

theorem merge_grouping:
  assumes "\<forall>p\<in>set inp. ResourceID p \<noteq> None"
  shows "\<exists>objs mo objs' mo'.
           merge_outages cfg inp = Inr (objs, mo) \<and>
           length (items objs mo) = card (OutageID ` set (filter (is_legacy cfg) inp)) \<and>
           merge_outages cfg (filter (is_legacy cfg) inp) = Inr (objs', mo') \<and>
           items objs' mo' = items objs mo"
proof -
  let ?leg = "filter (is_legacy cfg) inp"
  from merge_outages_inv[OF assms] obtain objs mo
    where m: "merge_outages cfg inp = Inr (objs, mo)" and inv: "merge_inv cfg inp (length inp) objs mo"
    by blast
  have "\<forall>p\<in>set ?leg. ResourceID p \<noteq> None" using assms by simp
  from merge_outages_inv[OF this] obtain objs' mo'
    where m': "merge_outages cfg ?leg = Inr (objs', mo')"
      and inv': "merge_inv cfg ?leg (length ?leg) objs' mo'"
    by blast
  have "merged_record cfg ?leg = merged_record cfg inp"
    by (rule ext) (simp add: merged_record_def same_URN_filter)
  then have e: "items objs' mo' = items objs mo"
    by (simp add: items_merged[OF inv] items_merged[OF inv'] first_seen_filter)
  have c: "length (items objs mo) = card (OutageID ` set ?leg)"
    by (simp add: items_merged[OF inv] length_first_seen)
  show ?thesis
    apply (rule exI[of _ objs], rule exI[of _ mo], rule exI[of _ objs'], rule exI[of _ mo'])
    using m m' e c by simp
qed

theorem merge_grouping_witness:
  "\<exists>objs mo.
     merge_outages ex_cfg [ex_r1, ex_other, ex_r2] = Inr (objs, mo) \<and>
     length (items objs mo) = 1 \<and>
     OutageID ` set (filter (is_legacy ex_cfg) [ex_r1, ex_other, ex_r2]) = {''A''} \<and>
     merge_outages ex_cfg [ex_r1, ex_r2] = Inr ([objs ! 0, ex_r2], mo)"
  using merge_grouping[of "[ex_r1, ex_other, ex_r2]" ex_cfg]
  apply (simp only: ex_merge)
  apply (auto simp: items_def is_legacy_def merge_outages_def merge_step_def make_URN_def
           ex_cfg_def ex_r1_def ex_r2_def ex_other_def upt_rec)
  done

text \<open>
  Claim C7. Let position \<open>i\<close> hold the first record of its outage among those that pass
  the prefix filter, and let \<open>j\<close> hold any record of the same outage that passes it (a
  later one with another \<^verbatim>\<open>Subject\<close>, say). Then the merged outage under their URN has the
  \<^verbatim>\<open>Subject\<close> of record \<open>i\<close>, and likewise its other scalar fields.
\<close>

theorem first_seen_wins:
  assumes "\<forall>p\<in>set inp. ResourceID p \<noteq> None"
    and "first_of cfg inp i"
    and "j < length inp" and "is_legacy cfg (inp ! j)" and "OutageID (inp ! j) = OutageID (inp ! i)"
  shows "\<exists>objs mo m.
           merge_outages cfg inp = Inr (objs, mo) \<and>
           map_of (items objs mo) (NEWSURNPREFIX cfg @ OutageID (inp ! j)) = Some m \<and>
           Subject m = Subject (inp ! i) \<and> Content m = Content (inp ! i) \<and>
           OutageType m = OutageType (inp ! i) \<and>
           OutageStart m = OutageStart (inp ! i) \<and> OutageEnd m = OutageEnd (inp ! i)"
proof -
  from merge_outages_inv[OF assms(1)] obtain objs mo
    where m: "merge_outages cfg inp = Inr (objs, mo)" and inv: "merge_inv cfg inp (length inp) objs mo"
    by blast
  have "map_of (items objs mo) (NEWSURNPREFIX cfg @ OutageID (inp ! j)) = Some (merged_record cfg inp (inp ! i))"
    using lookup_merged[OF inv assms(2)] assms(5) by (simp add: make_URN_def)
  then show ?thesis using m
    by (intro exI[of _ objs] exI[of _ mo] exI[of _ "merged_record cfg inp (inp ! i)"]) (simp add: merged_record_def)
qed

theorem first_seen_wins_witness:
  "\<exists>objs mo m.
     merge_outages ex_cfg [ex_r1, ex_other, ex_r2] = Inr (objs, mo) \<and>
     map_of (items objs mo) (NEWSURNPREFIX ex_cfg @ OutageID ex_r2) = Some m \<and>
     Subject ex_r2 \<noteq> Subject ex_r1 \<and> Subject m = ''S''"
  using first_seen_wins[of "[ex_r1, ex_other, ex_r2]" ex_cfg 0 2]
  by (auto simp: first_of_def is_legacy_def ex_cfg_def ex_r1_def ex_r2_def ex_other_def)

text \<open>
  Claim C8. For every batch and every \<^verbatim>\<open>OutageID\<close>: the merged outage of that identifier
  exists exactly when some record with the prefix bears it, and then its
  \<^verbatim>\<open>AffectedInfrastructure\<close> has one entry for each such record: their \<^verbatim>\<open>ResourceID\<close>
  values in the order of the batch, duplicates kept.
\<close>

theorem resource_accumulation:
  assumes "\<forall>p\<in>set inp. ResourceID p \<noteq> None"
  shows "\<exists>objs mo.
           merge_outages cfg inp = Inr (objs, mo) \<and>
           (case map_of (items objs mo) (NEWSURNPREFIX cfg @ oid) of
              None \<Rightarrow> filter (\<lambda>q. is_legacy cfg q \<and> OutageID q = oid) inp = []
            | Some m \<Rightarrow>
                (\<exists>l. AffectedInfrastructure m = Some l \<and>
                     length l = length (filter (\<lambda>q. is_legacy cfg q \<and> OutageID q = oid) inp) \<and>
                     map Some l = map ResourceID (filter (\<lambda>q. is_legacy cfg q \<and> OutageID q = oid) inp)))"
proof -
  let ?u = "NEWSURNPREFIX cfg @ oid"
  let ?g = "filter (\<lambda>q. is_legacy cfg q \<and> OutageID q = oid) inp"
  from merge_outages_inv[OF assms(1)] obtain objs mo
    where m: "merge_outages cfg inp = Inr (objs, mo)" and inv: "merge_inv cfg inp (length inp) objs mo"
    by blast
  have g: "same_URN cfg inp ?u = ?g" by (rule same_URN_by_id)
  have "case map_of (items objs mo) ?u of
          None \<Rightarrow> ?g = []
        | Some m \<Rightarrow> (\<exists>l. AffectedInfrastructure m = Some l \<and> length l = length ?g \<and> map Some l = map ResourceID ?g)"
  proof (cases "?g = []")
    case True
    then show ?thesis using lookup_none[OF inv, of ?u] g by simp
  next
    case False
    then obtain i where i: "first_of cfg inp i" "make_URN cfg (inp ! i) = ?u"
      using same_URN_empty_iff[of cfg inp ?u] g by auto
    have all: "\<forall>x\<in>set ?g. ResourceID x \<noteq> None" using assms by simp
    have ms: "map Some (List.map_filter ResourceID ?g) = map ResourceID ?g"
      using map_filter_all[OF all] .
    from arg_cong[OF ms, of length] have "length (List.map_filter ResourceID ?g) = length ?g"
      by simp
    with ms show ?thesis using lookup_merged[OF inv i(1)] i(2) g by (simp add: merged_record_def)
  qed
  with m show ?thesis by (intro exI[of _ objs] exI[of _ mo]) simp
qed

theorem resource_accumulation_witness:
  "\<exists>objs mo m.
     merge_outages ex_cfg [ex_r1, ex_other, ex_r2] = Inr (objs, mo) \<and>
     map_of (items objs mo) (NEWSURNPREFIX ex_cfg @ ''A'') = Some m \<and>
     AffectedInfrastructure m = Some [''r1'', ''r2'']"
  using resource_accumulation[of "[ex_r1, ex_other, ex_r2]" ex_cfg "''A''"]
  apply (simp only: ex_merge)
  apply (auto simp: items_def is_legacy_def ex_cfg_def ex_r1_def ex_r2_def ex_other_def)
  done

text \<open>
  Claim C10, as stated: the merge leaves the input records unchanged. It does not: on the
  batch of the single record \<open>ex_r1\<close> the record loses \<^verbatim>\<open>ResourceID\<close> and gains
  \<^verbatim>\<open>AffectedInfrastructure\<close>, since the merged outage is the input record itself.
\<close>

theorem merge_changes_input_counterexample: "merge_outages ex_cfg [ex_r1] =
     Inr ([ex_r1\<lparr>ResourceID := None, AffectedInfrastructure := Some [''r1'']\<rparr>],
          [(''urn:ogf:glue2:access-ci.org:news:A'', 0)]) \<and>
   [ex_r1\<lparr>ResourceID := None, AffectedInfrastructure := Some [''r1'']\<rparr>] \<noteq> [ex_r1]"
  by (simp add: merge_outages_def merge_step_def is_legacy_def make_URN_def ex_cfg_def ex_r1_def)

text \<open>
  Claim C10, amended. The merge is a function of the batch and its order. It changes
  the first record of every outage in place, removing \<^verbatim>\<open>ResourceID\<close> and adding the
  \<^verbatim>\<open>AffectedInfrastructure\<close> list of the outage, and leaves every other record of the batch
  as it was.
\<close>

theorem merge_changes_first_records:
  assumes "\<forall>p\<in>set inp. ResourceID p \<noteq> None"
  shows "\<exists>objs mo.
           merge_outages cfg inp = Inr (objs, mo) \<and> length objs = length inp \<and>
           (\<forall>i<length inp. objs ! i =
              (if first_of cfg inp i
               then (inp ! i)\<lparr>ResourceID := None,
                      AffectedInfrastructure := Some (List.map_filter ResourceID
                        (filter (\<lambda>q. is_legacy cfg q \<and> OutageID q = OutageID (inp ! i)) inp))\<rparr>
               else inp ! i))"
proof -
  from merge_outages_inv[OF assms(1)] obtain objs mo
    where m: "merge_outages cfg inp = Inr (objs, mo)" and inv: "merge_inv cfg inp (length inp) objs mo"
    by blast
  have g: "\<And>p. same_URN cfg inp (make_URN cfg p) = filter (\<lambda>q. is_legacy cfg q \<and> OutageID q = OutageID p) inp"
    by (simp add: same_URN_def make_URN_def)
  have l: "length objs = length inp" using inv by (simp add: merge_inv_def)
  have o: "\<forall>i<length inp. objs ! i =
         (if first_of cfg inp i then merged_record cfg inp (inp ! i) else inp ! i)"
    using inv by (simp add: merge_inv_def)
  show ?thesis using m l o
    by (intro exI[of _ objs] exI[of _ mo]) (simp add: merged_record_def g)
qed

theorem merge_changes_first_records_witness:
  "\<exists>objs mo.
     merge_outages ex_cfg [ex_r1, ex_other, ex_r2] = Inr (objs, mo) \<and>
     objs ! 0 = ex_r1\<lparr>ResourceID := None, AffectedInfrastructure := Some [''r1'', ''r2'']\<rparr> \<and>
     objs ! 1 = ex_other \<and> objs ! 2 = ex_r2"
  using merge_changes_first_records[of "[ex_r1, ex_other, ex_r2]" ex_cfg]
  apply (simp only: ex_merge)
  apply (auto simp: ex_r1_def ex_r2_def ex_other_def)
  done

section \<open>Reconciliation: the loops\<close>

lemmas ex_defs = ex_cfg_def ex_r1_def ex_r2_def ex_other_def ex_b_def no_stats_def empty_db_def
  pl_ok_def pl_upsert_B_fails_def pl_delete_assoc_fails_def pl_unique_def ex_news_A_def
  ex_assoc_def ex_db1_def

lemmas run_defs = Warehouse_XSEDE_News_def merge_outages_def merge_step_def is_legacy_def
  make_URN_def items_def load_cur_def load_cur_assoc_def str_assoc_def assoc_key_def
  make_news_def TYPE_of_def update_or_create_def fresh_pk_def on_save_error_def
  on_delete_error_def exc_message_def Let_def upt_rec


lemma on_save_error_raises [simp]: "on_save_error what k e = Raised AttributeError"
  by (simp add: on_save_error_def exc_message_def)

lemma on_delete_error_raises [simp]: "on_delete_error what k e = Some AttributeError"
  by (simp add: on_delete_error_def exc_message_def)

lemma fold_max_ge: "(m::nat) \<le> fold max xs m"
  by (induction xs arbitrary: m) (auto intro: order_trans[OF max.cobounded2])

lemma fold_max_mem: "x \<in> set xs \<Longrightarrow> (x::nat) \<le> fold max xs m"
proof (induction xs arbitrary: m)
  case Nil
  then show ?case by simp
next
  case (Cons y ys)
  show ?case
  proof (cases "x = y")
    case True
    have "x \<le> max y m" using True by simp
    also have "\<dots> \<le> fold max ys (max y m)" by (rule fold_max_ge)
    finally show ?thesis by simp
  next
    case False
    with Cons show ?thesis by simp
  qed
qed

lemma fresh_pk_gt: "a \<in> set tbl \<Longrightarrow> pk a < fresh_pk tbl"
  unfolding fresh_pk_def using fold_max_mem[of "pk a" "map pk tbl" 0] by auto

lemma fresh_pk_notin: "fresh_pk tbl \<notin> pk ` set tbl"
  using fresh_pk_gt by fastforce

lemma fold_max_mono: "(m::nat) \<le> n \<Longrightarrow> fold max xs m \<le> fold max xs n"
  by (induction xs arbitrary: m n) (auto simp: max.coboundedI2 intro!: max.mono)

lemma fresh_pk_snoc: "fresh_pk tbl \<le> fresh_pk (tbl @ [x])"
  unfolding fresh_pk_def by (simp add: max.coboundedI2)

lemma assoc_loop_frame:
  "assoc_loop pl ca u rs s = Continue s' \<Longrightarrow>
     news_tbl (db s') = news_tbl (db s) \<and> new s' = new s \<and> STATS s' = STATS s"
  by (induction rs arbitrary: s) (auto split: option.splits simp: Let_def)

lemma assoc_loop_new_assoc:
  "assoc_loop pl ca u rs s = Continue s' \<Longrightarrow>
     fst ` set (new_assoc s') = fst ` set (new_assoc s) \<union> (\<lambda>r. assoc_key u ''Resource'' r) ` set rs"
  by (induction rs arbitrary: s) (auto split: option.splits simp: Let_def AList.dom_update)

lemma assoc_loop_mono:
  "assoc_loop pl ca u rs s = Continue s' \<Longrightarrow>
     set (assoc_tbl (db s)) \<subseteq> set (assoc_tbl (db s')) \<and> fresh_pk (assoc_tbl (db s)) \<le> fresh_pk (assoc_tbl (db s'))"
proof (induction rs arbitrary: s)
  case Nil
  then show ?case by simp
next
  case (Cons r rs)
  show ?case
  proof (cases "map_of ca (assoc_key u ''Resource'' r)")
    case (Some item)
    with Cons.prems Cons.IH[of "s\<lparr>new_assoc := AList.update (assoc_key u ''Resource'' r) item (new_assoc s)\<rparr>"]
    show ?thesis by (simp add: Let_def)
  next
    case None
    with Cons.prems have ok: "raises pl (db s) (SaveAssoc u ''Resource'' r) = None"
      by (auto simp: Let_def split: option.splits)
    let ?item = "\<lparr>pk = fresh_pk (assoc_tbl (db s)), NewsItem = u, AssociatedType = ''Resource'', AssociatedID = r\<rparr>"
    let ?s1 = "s\<lparr>db := (db s)\<lparr>assoc_tbl := assoc_tbl (db s) @ [?item]\<rparr>,
                 new_assoc := AList.update (assoc_key u ''Resource'' r) ?item (new_assoc s)\<rparr>"
    from Cons.prems None ok have "assoc_loop pl ca u rs ?s1 = Continue s'" by (simp add: Let_def)
    from Cons.IH[OF this] show ?thesis
      using fresh_pk_snoc[of "assoc_tbl (db s)" ?item] by auto
  qed
qed


lemma assoc_loop_Cons:
  assumes "assoc_loop pl ca u (r # rs) s = Continue s'"
  shows "(\<exists>item. map_of ca (assoc_key u ''Resource'' r) = Some item \<and>
            assoc_loop pl ca u rs (s\<lparr>new_assoc := AList.update (assoc_key u ''Resource'' r) item (new_assoc s)\<rparr>) = Continue s') \<or>
         (map_of ca (assoc_key u ''Resource'' r) = None \<and> assoc_loop pl ca u rs (saved s u r) = Continue s')"
  using assms by (auto simp: Let_def saved_def split: option.splits)

lemma assoc_loop_created:
  "assoc_loop pl ca u rs s = Continue s' \<Longrightarrow> a \<in> set (assoc_tbl (db s')) \<Longrightarrow>
   a \<notin> set (assoc_tbl (db s)) \<Longrightarrow>
     NewsItem a = u \<and> AssociatedType a = ''Resource'' \<and> AssociatedID a \<in> set rs \<and>
     map_of ca (str_assoc a) = None \<and> fresh_pk (assoc_tbl (db s)) \<le> pk a"
proof (induction rs arbitrary: s)
  case Nil
  then show ?case by simp
next
  case (Cons r rs)
  from assoc_loop_Cons[OF Cons.prems(1)] show ?case
  proof (elim disjE exE conjE)
    fix item
    assume "assoc_loop pl ca u rs (s\<lparr>new_assoc := AList.update (assoc_key u ''Resource'' r) item (new_assoc s)\<rparr>) = Continue s'"
    from Cons.IH[OF this Cons.prems(2)] Cons.prems(3) show ?thesis by simp
  next
    assume n: "map_of ca (assoc_key u ''Resource'' r) = None"
      and l: "assoc_loop pl ca u rs (saved s u r) = Continue s'"
    show ?thesis
    proof (cases "a \<in> set (assoc_tbl (db (saved s u r)))")
      case True
      with Cons.prems(3) have "a = \<lparr>pk = fresh_pk (assoc_tbl (db s)), NewsItem = u,
                   AssociatedType = ''Resource'', AssociatedID = r\<rparr>"
        by (simp add: saved_def Let_def)
      then show ?thesis using n by (simp add: str_assoc_def)
    next
      case False
      from Cons.IH[OF l Cons.prems(2) False] fresh_pk_snoc[of "assoc_tbl (db s)"]
      show ?thesis by (auto simp: saved_def Let_def intro: order_trans)
    qed
  qed
qed

lemma assoc_loop_creates:
  "assoc_loop pl ca u rs s = Continue s' \<Longrightarrow> r \<in> set rs \<Longrightarrow>
   map_of ca (assoc_key u ''Resource'' r) = None \<Longrightarrow>
     \<exists>a\<in>set (assoc_tbl (db s')). str_assoc a = assoc_key u ''Resource'' r \<and> NewsItem a = u"
proof (induction rs arbitrary: s)
  case Nil
  then show ?case by simp
next
  case (Cons x rs)
  from assoc_loop_Cons[OF Cons.prems(1)] show ?case
  proof (elim disjE exE conjE)
    fix item
    assume m: "map_of ca (assoc_key u ''Resource'' x) = Some item"
      and l: "assoc_loop pl ca u rs (s\<lparr>new_assoc := AList.update (assoc_key u ''Resource'' x) item (new_assoc s)\<rparr>) = Continue s'"
    from m Cons.prems(3) have "r \<noteq> x" by auto
    with Cons.prems(2) have "r \<in> set rs" by simp
    from Cons.IH[OF l this Cons.prems(3)] show ?thesis .
  next
    assume l: "assoc_loop pl ca u rs (saved s u x) = Continue s'"
    show ?thesis
    proof (cases "r = x")
      case True
      define a where "a = \<lparr>pk = fresh_pk (assoc_tbl (db s)), NewsItem = u, AssociatedType = ''Resource'', AssociatedID = x\<rparr>"
      have "a \<in> set (assoc_tbl (db (saved s u x)))"
        by (simp add: saved_def Let_def a_def)
      with assoc_loop_mono[OF l] have "a \<in> set (assoc_tbl (db s'))" by blast
      moreover have "str_assoc a = assoc_key u ''Resource'' r \<and> NewsItem a = u"
        using True by (simp add: str_assoc_def a_def)
      ultimately show ?thesis by blast
    next
      case False
      with Cons.prems(2) have "r \<in> set rs" by simp
      from Cons.IH[OF l this Cons.prems(3)] show ?thesis .
    qed
  qed
qed

lemma assoc_loop_distinct:
  "assoc_loop pl ca u rs s = Continue s' \<Longrightarrow> distinct (map pk (assoc_tbl (db s))) \<Longrightarrow>
     distinct (map pk (assoc_tbl (db s')))"
proof (induction rs arbitrary: s)
  case Nil
  then show ?case by simp
next
  case (Cons r rs)
  from assoc_loop_Cons[OF Cons.prems(1)] show ?case
  proof (elim disjE exE conjE)
    fix item
    assume "assoc_loop pl ca u rs (s\<lparr>new_assoc := AList.update (assoc_key u ''Resource'' r) item (new_assoc s)\<rparr>) = Continue s'"
    from Cons.IH[OF this] Cons.prems(2) show ?thesis by simp
  next
    assume l: "assoc_loop pl ca u rs (saved s u r) = Continue s'"
    have "distinct (map pk (assoc_tbl (db (saved s u r))))"
      using Cons.prems(2) fresh_pk_notin[of "assoc_tbl (db s)"] by (simp add: saved_def Let_def)
    from Cons.IH[OF l this] show ?thesis .
  qed
qed


lemma news_loop_Cons:
  assumes "news_loop cfg pl ca ((u, p) # rest) s = Continue s'"
  shows "\<exists>rs s2. AffectedInfrastructure p = Some rs \<and>
           assoc_loop pl ca u rs (upserted cfg s u p) = Continue s2 \<and>
           news_loop cfg pl ca rest s2 = Continue s'"
  using assms by (auto simp: Let_def upserted_def split: option.splits flow.splits)

lemma URN_make_news [simp]: "URN (make_news cfg u p) = u"
  by (simp add: make_news_def)

lemma URN_update_or_create:
  "URN ` set (update_or_create item tbl) = insert (URN item) (URN ` set tbl)"
  by (auto simp: update_or_create_def)

lemma merged_keys_Nil [simp]: "merged_keys [] = {}"
  by (simp add: merged_keys_def)

lemma merged_keys_Cons:
  "merged_keys ((u, p) # its) =
     (case AffectedInfrastructure p of None \<Rightarrow> {} | Some rs \<Rightarrow> (\<lambda>r. assoc_key u ''Resource'' r) ` set rs)
     \<union> merged_keys its"
  by (auto simp: merged_keys_def split: option.splits)

lemma news_loop_sets:
  "news_loop cfg pl ca its s = Continue s' \<Longrightarrow>
     URN ` set (news_tbl (db s')) = URN ` set (news_tbl (db s)) \<union> fst ` set its \<and>
     fst ` set (new s') = fst ` set (new s) \<union> fst ` set its \<and>
     fst ` set (new_assoc s') = fst ` set (new_assoc s) \<union> merged_keys its \<and>
     Update (STATS s') = Update (STATS s) + length its \<and>
     Delete (STATS s') = Delete (STATS s)"
proof (induction its arbitrary: s)
  case Nil
  then show ?case by simp
next
  case (Cons x its)
  obtain u p where x: "x = (u, p)" by (cases x)
  from news_loop_Cons[OF Cons.prems[unfolded x]] obtain rs s2
    where rs: "AffectedInfrastructure p = Some rs"
      and a: "assoc_loop pl ca u rs (upserted cfg s u p) = Continue s2"
      and n: "news_loop cfg pl ca its s2 = Continue s'" by blast
  have f: "news_tbl (db s2) = news_tbl (db (upserted cfg s u p))" "new s2 = new (upserted cfg s u p)"
    "STATS s2 = STATS (upserted cfg s u p)"
    using assoc_loop_frame[OF a] by simp_all
  have k: "fst ` set (new_assoc s2) = fst ` set (new_assoc s) \<union> (\<lambda>r. assoc_key u ''Resource'' r) ` set rs"
    using assoc_loop_new_assoc[OF a] by (simp add: upserted_def)
  from Cons.IH[OF n] show ?case
    unfolding x f k
    by (auto simp: upserted_def URN_update_or_create AList.dom_update merged_keys_Cons rs)
qed

lemma news_loop_mono:
  "news_loop cfg pl ca its s = Continue s' \<Longrightarrow>
     set (assoc_tbl (db s)) \<subseteq> set (assoc_tbl (db s')) \<and> fresh_pk (assoc_tbl (db s)) \<le> fresh_pk (assoc_tbl (db s'))"
proof (induction its arbitrary: s)
  case Nil
  then show ?case by simp
next
  case (Cons x its)
  obtain u p where x: "x = (u, p)" by (cases x)
  from news_loop_Cons[OF Cons.prems[unfolded x]] obtain rs s2
    where a: "assoc_loop pl ca u rs (upserted cfg s u p) = Continue s2"
      and n: "news_loop cfg pl ca its s2 = Continue s'" by blast
  from assoc_loop_mono[OF a] Cons.IH[OF n] show ?case
    by (auto simp: upserted_def)
qed

lemma news_loop_distinct:
  "news_loop cfg pl ca its s = Continue s' \<Longrightarrow> distinct (map pk (assoc_tbl (db s))) \<Longrightarrow>
     distinct (map pk (assoc_tbl (db s')))"
proof (induction its arbitrary: s)
  case Nil
  then show ?case by simp
next
  case (Cons x its)
  obtain u p where x: "x = (u, p)" by (cases x)
  from news_loop_Cons[OF Cons.prems(1)[unfolded x]] obtain rs s2
    where a: "assoc_loop pl ca u rs (upserted cfg s u p) = Continue s2"
      and n: "news_loop cfg pl ca its s2 = Continue s'" by blast
  have "distinct (map pk (assoc_tbl (db (upserted cfg s u p))))"
    using Cons.prems(2) by (simp add: upserted_def)
  from Cons.IH[OF n assoc_loop_distinct[OF a this]] show ?case .
qed

lemma news_loop_created:
  "news_loop cfg pl ca its s = Continue s' \<Longrightarrow> a \<in> set (assoc_tbl (db s')) \<Longrightarrow>
   a \<notin> set (assoc_tbl (db s)) \<Longrightarrow>
     NewsItem a \<in> fst ` set its \<and> str_assoc a \<in> merged_keys its \<and>
     map_of ca (str_assoc a) = None \<and> fresh_pk (assoc_tbl (db s)) \<le> pk a"
proof (induction its arbitrary: s)
  case Nil
  then show ?case by simp
next
  case (Cons x its)
  obtain u p where x: "x = (u, p)" by (cases x)
  from news_loop_Cons[OF Cons.prems(1)[unfolded x]] obtain rs s2
    where rs: "AffectedInfrastructure p = Some rs"
      and l: "assoc_loop pl ca u rs (upserted cfg s u p) = Continue s2"
      and n: "news_loop cfg pl ca its s2 = Continue s'" by blast
  have t: "assoc_tbl (db (upserted cfg s u p)) = assoc_tbl (db s)" by (simp add: upserted_def)
  show ?case
  proof (cases "a \<in> set (assoc_tbl (db s2))")
    case True
    from assoc_loop_created[OF l True] Cons.prems(3) t
    have "NewsItem a = u \<and> AssociatedType a = ''Resource'' \<and> AssociatedID a \<in> set rs \<and>
          map_of ca (str_assoc a) = None \<and> fresh_pk (assoc_tbl (db s)) \<le> pk a" by simp
    then show ?thesis unfolding x by (auto simp: merged_keys_Cons rs str_assoc_def)
  next
    case False
    from Cons.IH[OF n Cons.prems(2) False] assoc_loop_mono[OF l] t
    show ?thesis unfolding x by (auto simp: merged_keys_Cons)
  qed
qed

lemma news_loop_creates:
  "news_loop cfg pl ca its s = Continue s' \<Longrightarrow> (u, p) \<in> set its \<Longrightarrow>
   AffectedInfrastructure p = Some rs \<Longrightarrow> r \<in> set rs \<Longrightarrow>
   map_of ca (assoc_key u ''Resource'' r) = None \<Longrightarrow>
     \<exists>a\<in>set (assoc_tbl (db s')). str_assoc a = assoc_key u ''Resource'' r \<and> NewsItem a = u"
proof (induction its arbitrary: s)
  case Nil
  then show ?case by simp
next
  case (Cons x its)
  obtain v q where x: "x = (v, q)" by (cases x)
  from news_loop_Cons[OF Cons.prems(1)[unfolded x]] obtain qs s2
    where qs: "AffectedInfrastructure q = Some qs"
      and l: "assoc_loop pl ca v qs (upserted cfg s v q) = Continue s2"
      and n: "news_loop cfg pl ca its s2 = Continue s'" by blast
  show ?case
  proof (cases "(u, p) = (v, q)")
    case True
    then have "r \<in> set qs" using Cons.prems(3,4) qs by simp
    from assoc_loop_creates[OF l this] Cons.prems(5) True
    obtain a where "a \<in> set (assoc_tbl (db s2))" "str_assoc a = assoc_key u ''Resource'' r" "NewsItem a = u"
      by auto
    with news_loop_mono[OF n] show ?thesis by blast
  next
    case False
    with Cons.prems(2) x have "(u, p) \<in> set its" by auto
    from Cons.IH[OF n this Cons.prems(3,4,5)] show ?thesis .
  qed
qed


lemma delete_assoc_loop_Cons:
  assumes "delete_assoc_loop pl ((K, item) # rest) s = Continue s'"
  shows "(map_of (new_assoc s) K \<noteq> None \<and> delete_assoc_loop pl rest s = Continue s') \<or>
         (map_of (new_assoc s) K = None \<and>
          delete_assoc_loop pl rest
            (s\<lparr>db := (db s)\<lparr>assoc_tbl := filter (\<lambda>a. pk a \<noteq> pk item) (assoc_tbl (db s))\<rparr>\<rparr>) = Continue s')"
  using assms by (auto split: if_splits option.splits)

lemma delete_assoc_loop_Continue:
  "delete_assoc_loop pl ca s = Continue s' \<Longrightarrow>
     assoc_tbl (db s') =
       filter (\<lambda>a. pk a \<notin> pk ` snd ` {x \<in> set ca. map_of (new_assoc s) (fst x) = None}) (assoc_tbl (db s)) \<and>
     news_tbl (db s') = news_tbl (db s) \<and> new s' = new s \<and> new_assoc s' = new_assoc s \<and>
     STATS s' = STATS s"
proof (induction ca arbitrary: s)
  case Nil
  then show ?case by simp
next
  case (Cons x ca)
  obtain K item where x: "x = (K, item)" by (cases x)
  from delete_assoc_loop_Cons[OF Cons.prems[unfolded x]] show ?case
  proof (elim disjE conjE)
    assume k: "map_of (new_assoc s) K \<noteq> None" and l: "delete_assoc_loop pl ca s = Continue s'"
    have "{y \<in> set (x # ca). map_of (new_assoc s) (fst y) = None} =
          {y \<in> set ca. map_of (new_assoc s) (fst y) = None}"
      using k x by auto
    with Cons.IH[OF l] show ?thesis by simp
  next
    let ?s1 = "s\<lparr>db := (db s)\<lparr>assoc_tbl := filter (\<lambda>a. pk a \<noteq> pk item) (assoc_tbl (db s))\<rparr>\<rparr>"
    assume k: "map_of (new_assoc s) K = None" and l: "delete_assoc_loop pl ca ?s1 = Continue s'"
    have e: "{y \<in> set (x # ca). map_of (new_assoc s) (fst y) = None} =
          insert x {y \<in> set ca. map_of (new_assoc s) (fst y) = None}"
      using k x by auto
    from Cons.IH[OF l] show ?thesis
      unfolding e by (auto simp: x intro: filter_cong)
  qed
qed

lemma delete_news_loop_Cons:
  assumes "delete_news_loop pl ((u, item) # rest) s = Continue s'"
  shows "(map_of (new s) u \<noteq> None \<and> delete_news_loop pl rest s = Continue s') \<or>
         (map_of (new s) u = None \<and>
          delete_news_loop pl rest
            (s\<lparr>db := (db s)\<lparr>news_tbl := filter (\<lambda>n. URN n \<noteq> u) (news_tbl (db s)),
                             assoc_tbl := (if cascade pl
                                           then filter (\<lambda>a. NewsItem a \<noteq> u) (assoc_tbl (db s))
                                           else assoc_tbl (db s))\<rparr>,
               STATS := (STATS s)\<lparr>Delete := Suc (Delete (STATS s))\<rparr>\<rparr>) = Continue s')"
  using assms by (auto split: if_splits option.splits)

lemma delete_news_loop_Continue:
  "delete_news_loop pl cur s = Continue s' \<Longrightarrow>
     news_tbl (db s') =
       filter (\<lambda>n. URN n \<notin> fst ` {x \<in> set cur. map_of (new s) (fst x) = None}) (news_tbl (db s)) \<and>
     assoc_tbl (db s') =
       (if cascade pl
        then filter (\<lambda>a. NewsItem a \<notin> fst ` {x \<in> set cur. map_of (new s) (fst x) = None}) (assoc_tbl (db s))
        else assoc_tbl (db s)) \<and>
     new s' = new s \<and> new_assoc s' = new_assoc s \<and>
     Update (STATS s') = Update (STATS s) \<and>
     Delete (STATS s') = Delete (STATS s) + length (filter (\<lambda>x. map_of (new s) (fst x) = None) cur)"
proof (induction cur arbitrary: s)
  case Nil
  then show ?case by simp
next
  case (Cons x cur)
  obtain u item where x: "x = (u, item)" by (cases x)
  from delete_news_loop_Cons[OF Cons.prems[unfolded x]] show ?case
  proof (elim disjE conjE)
    assume k: "map_of (new s) u \<noteq> None" and l: "delete_news_loop pl cur s = Continue s'"
    have "{y \<in> set (x # cur). map_of (new s) (fst y) = None} =
          {y \<in> set cur. map_of (new s) (fst y) = None}"
      using k x by auto
    with Cons.IH[OF l] k show ?thesis by (simp add: x)
  next
    let ?s1 = "s\<lparr>db := (db s)\<lparr>news_tbl := filter (\<lambda>n. URN n \<noteq> u) (news_tbl (db s)),
                             assoc_tbl := (if cascade pl
                                           then filter (\<lambda>a. NewsItem a \<noteq> u) (assoc_tbl (db s))
                                           else assoc_tbl (db s))\<rparr>,
               STATS := (STATS s)\<lparr>Delete := Suc (Delete (STATS s))\<rparr>\<rparr>"
    assume k: "map_of (new s) u = None" and l: "delete_news_loop pl cur ?s1 = Continue s'"
    have e: "{y \<in> set (x # cur). map_of (new s) (fst y) = None} =
          insert x {y \<in> set cur. map_of (new s) (fst y) = None}"
      using k x by auto
    from Cons.IH[OF l] k show ?thesis
      unfolding e by (auto simp: x intro: filter_cong)
  qed
qed


lemma fold_update_keys:
  "fst ` set (fold (\<lambda>x al. AList.update (f x) x al) xs al0) = fst ` set al0 \<union> f ` set xs"
  by (induction xs arbitrary: al0) (auto simp: AList.dom_update)

lemma fold_update_distinct:
  "distinct (map fst al0 @ map f xs) \<Longrightarrow>
     fold (\<lambda>x al. AList.update (f x) x al) xs al0 = al0 @ map (\<lambda>x. (f x, x)) xs"
proof (induction xs arbitrary: al0)
  case Nil
  then show ?case by simp
next
  case (Cons x xs)
  have n: "map_of al0 (f x) = None" using Cons.prems by (auto simp: map_of_eq_None_iff)
  have "distinct (map fst (al0 @ [(f x, x)]) @ map f xs)" using Cons.prems by auto
  from Cons.IH[OF this] show ?case by (simp add: update_fresh[OF n])
qed

lemma load_cur_keys:
  "fst ` set (load_cur cfg d) = {u \<in> URN ` set (news_tbl d). prefix (NEWSURNPREFIX cfg) u}"
  by (auto simp: load_cur_def fold_update_keys)

lemma load_cur_assoc_set:
  assumes "distinct (map str_assoc (filter (\<lambda>a. prefix (NEWSURNPREFIX cfg) (NewsItem a)) (assoc_tbl d)))"
  shows "load_cur_assoc cfg d =
           map (\<lambda>a. (str_assoc a, a)) (filter (\<lambda>a. prefix (NEWSURNPREFIX cfg) (NewsItem a)) (assoc_tbl d))"
  unfolding load_cur_assoc_def using fold_update_distinct[of "[]" str_assoc] assms by simp

lemma merge_step_refs:
  "merge_step cfg i (objs, mo) = Inr (objs', mo') \<Longrightarrow>
     mo' = mo \<or> mo' = AList.update (make_URN cfg (objs ! i)) i mo"
  unfolding merge_step_def Let_def
  by (simp split: if_splits option.splits prod.splits)

lemma merge_step_prefix:
  assumes st: "merge_step cfg i (objs, mo) = Inr (objs', mo')"
    and pre: "\<forall>u\<in>fst ` set mo. prefix (NEWSURNPREFIX cfg) u"
  shows "\<forall>u\<in>fst ` set mo'. prefix (NEWSURNPREFIX cfg) u"
proof
  fix u assume u: "u \<in> fst ` set mo'"
  from merge_step_refs[OF st] show "prefix (NEWSURNPREFIX cfg) u"
  proof
    assume "mo' = mo"
    with u pre show ?thesis by blast
  next
    assume "mo' = AList.update (make_URN cfg (objs ! i)) i mo"
    with u have "u \<in> {make_URN cfg (objs ! i)} \<union> fst ` set mo"
      by (simp only: AList.dom_update)
    then have "u = make_URN cfg (objs ! i) \<or> u \<in> fst ` set mo" by simp
    then show ?thesis
    proof
      assume "u = make_URN cfg (objs ! i)"
      then show ?thesis by (simp add: make_URN_def)
    next
      assume "u \<in> fst ` set mo"
      with pre show ?thesis by blast
    qed
  qed
qed

lemma merge_loop_prefix:
  "merge_loop cfg is (objs, mo) = Inr (objs', mo') \<Longrightarrow>
   \<forall>u\<in>fst ` set mo. prefix (NEWSURNPREFIX cfg) u \<Longrightarrow>
     \<forall>u\<in>fst ` set mo'. prefix (NEWSURNPREFIX cfg) u"
proof (induction "is" arbitrary: objs mo)
  case Nil
  then show ?case by simp
next
  case (Cons i "is")
  from Cons.prems(1) obtain objs1 mo1 where
    st: "merge_step cfg i (objs, mo) = Inr (objs1, mo1)" and
    l: "merge_loop cfg is (objs1, mo1) = Inr (objs', mo')"
    by (auto split: sum.splits)
  from Cons.IH[OF l merge_step_prefix[OF st Cons.prems(2)]] show ?case .
qed

lemma items_keys: "fst ` set (items objs mo) = fst ` set mo"
  by (force simp: items_def)

lemma merged_URNs_prefix:
  "merge_outages cfg inp = Inr (objs, mo) \<Longrightarrow>
     \<forall>u\<in>fst ` set (items objs mo). prefix (NEWSURNPREFIX cfg) u"
  unfolding items_keys merge_outages_def
  using merge_loop_prefix[of cfg "[0..<length inp]" inp "[]" objs mo] by simp


lemma assoc_loop_Exit:
  "assoc_loop pl ca u rs s = Exit s' out \<Longrightarrow> \<exists>x. out = Raised x"
  by (induction rs arbitrary: s) (auto simp: Let_def split: option.splits)

lemma news_loop_Exit:
  "news_loop cfg pl ca its s = Exit s' out \<Longrightarrow> \<exists>x. out = Raised x"
proof (induction its arbitrary: s)
  case Nil
  then show ?case by simp
next
  case (Cons x its)
  obtain u p where x: "x = (u, p)" by (cases x)
  from Cons.prems Cons.IH assoc_loop_Exit show ?case
    unfolding x by (fastforce simp: Let_def split: option.splits flow.splits)
qed

lemma delete_assoc_loop_Exit:
  "delete_assoc_loop pl ca s = Exit s' out \<Longrightarrow> \<exists>x. out = Raised x"
proof (induction ca arbitrary: s)
  case Nil
  then show ?case by simp
next
  case (Cons x ca)
  obtain K item where x: "x = (K, item)" by (cases x)
  from Cons.prems Cons.IH show ?case
    unfolding x by (fastforce split: option.splits if_splits)
qed

lemma delete_news_loop_Exit:
  "delete_news_loop pl cur s = Exit s' out \<Longrightarrow> \<exists>x. out = Raised x"
proof (induction cur arbitrary: s)
  case Nil
  then show ?case by simp
next
  case (Cons x cur)
  obtain u item where x: "x = (u, item)" by (cases x)
  from Cons.prems Cons.IH show ?case
    unfolding x by (fastforce split: option.splits if_splits)
qed

lemma Warehouse_Returned:
  assumes "Warehouse_XSEDE_News cfg pl d st inp = (s, Returned b msg)"
  shows "b \<and> msg = [] \<and>
     (\<exists>objs mo s1 s2.
        merge_outages cfg inp = Inr (objs, mo) \<and>
        news_loop cfg pl (load_cur_assoc cfg d) (items objs mo)
          \<lparr>db = d, STATS = st, new = [], new_assoc = []\<rparr> = Continue s1 \<and>
        delete_assoc_loop pl (load_cur_assoc cfg d) s1 = Continue s2 \<and>
        delete_news_loop pl (load_cur cfg d) s2 = Continue s)"
  using assms news_loop_Exit delete_assoc_loop_Exit delete_news_loop_Exit
  unfolding Warehouse_XSEDE_News_def Let_def
  by (fastforce split: sum.splits prod.splits flow.splits)

lemma map_of_None_keys: "map_of al k = None \<longleftrightarrow> k \<notin> fst ` set al"
  by (simp add: map_of_eq_None_iff)

lemma fst_image_Collect: "fst ` {x \<in> A. Q (fst x)} = {u \<in> fst ` A. Q u}"
  by force

lemma pass_deletes:
  assumes dkey: "distinct (map str_assoc (filter (\<lambda>a. prefix (NEWSURNPREFIX cfg) (NewsItem a)) (assoc_tbl d)))"
    and na1: "fst ` set (new_assoc s1) = KS"
  shows "pk ` snd ` {x \<in> set (load_cur_assoc cfg d). map_of (new_assoc s1) (fst x) = None} =
         pk ` {a \<in> set (filter (\<lambda>a. prefix (NEWSURNPREFIX cfg) (NewsItem a)) (assoc_tbl d)). str_assoc a \<notin> KS}"
proof -
  let ?rows = "filter (\<lambda>a. prefix (NEWSURNPREFIX cfg) (NewsItem a)) (assoc_tbl d)"
  have "{x \<in> set (load_cur_assoc cfg d). map_of (new_assoc s1) (fst x) = None} =
        (\<lambda>a. (str_assoc a, a)) ` {a \<in> set ?rows. str_assoc a \<notin> KS}"
    unfolding load_cur_assoc_set[OF dkey] by (auto simp: map_of_None_keys na1)
  then show ?thesis by (simp add: image_image)
qed

lemma pass_deletes_news:
  assumes new1: "fst ` set (new s2) = M"
  shows "fst ` {x \<in> set (load_cur cfg d). map_of (new s2) (fst x) = None} =
         {u \<in> URN ` set (news_tbl d). prefix (NEWSURNPREFIX cfg) u \<and> u \<notin> M}"
proof -
  have "fst ` {x \<in> set (load_cur cfg d). map_of (new s2) (fst x) = None} =
        {u \<in> fst ` set (load_cur cfg d). u \<notin> M}"
    unfolding map_of_None_keys new1 by (rule fst_image_Collect)
  then show ?thesis unfolding load_cur_keys by simp
qed

lemma merge_loop_no_legacy:
  "\<forall>i\<in>set is. i < length inp \<and> \<not> is_legacy cfg (inp ! i) \<Longrightarrow>
     merge_loop cfg is (inp, []) = Inr (inp, [])"
  by (induction "is") (simp_all add: merge_step_def)

lemma merge_no_legacy:
  "\<forall>p\<in>set inp. \<not> is_legacy cfg p \<Longrightarrow> merge_outages cfg inp = Inr (inp, [])"
  unfolding merge_outages_def by (rule merge_loop_no_legacy) simp

lemma Warehouse_nothing_merged:
  assumes n: "news_tbl d = [n]" and a: "assoc_tbl d = [a1, a2]"
    and p: "prefix (NEWSURNPREFIX cfg) (URN n)"
    and o: "NewsItem a1 = URN n" "NewsItem a2 = URN n"
    and k: "pk a1 \<noteq> pk a2" "str_assoc a1 \<noteq> str_assoc a2"
    and l: "\<forall>p\<in>set inp. \<not> is_legacy cfg p"
    and r: "\<forall>d' c. raises pl d' c = None"
  shows "Warehouse_XSEDE_News cfg pl d st inp =
           (\<lparr>db = d\<lparr>news_tbl := [], assoc_tbl := []\<rparr>,
             STATS = st\<lparr>Delete := Suc (Delete st)\<rparr>, new = [], new_assoc = []\<rparr>,
            Returned True [])"
proof -
  have c: "load_cur cfg d = [(URN n, n)]" using n p by (simp add: load_cur_def)
  have ca: "load_cur_assoc cfg d = [(str_assoc a1, a1), (str_assoc a2, a2)]"
    using a p o k by (simp add: load_cur_assoc_def)
  show ?thesis
    unfolding Warehouse_XSEDE_News_def merge_no_legacy[OF l] c ca
    using r k a n by (simp add: items_def)
qed

lemma ex_pass1:
  "Warehouse_XSEDE_News ex_cfg pl_ok empty_db no_stats [ex_r1, ex_r2] =
     (\<lparr>db = ex_db1, STATS = \<lparr>Update = 1, Delete = 0, Skip = 0\<rparr>,
       new = [(''urn:ogf:glue2:access-ci.org:news:A'', ex_news_A)],
       new_assoc = [(''urn:ogf:glue2:access-ci.org:news:A->Resource/r1'', ex_assoc 1 ''r1''),
                    (''urn:ogf:glue2:access-ci.org:news:A->Resource/r2'', ex_assoc 2 ''r2'')]\<rparr>,
      Returned True [])"
  by (simp add: run_defs ex_defs)

lemma ex_pass2:
  "Warehouse_XSEDE_News ex_cfg pl_ok ex_db1 no_stats [ex_b] =
     (\<lparr>db = \<lparr>news_tbl = [make_news ex_cfg ''urn:ogf:glue2:access-ci.org:news:B'' ex_b],
              assoc_tbl = [\<lparr>pk = 3, NewsItem = ''urn:ogf:glue2:access-ci.org:news:B'',
                            AssociatedType = ''Resource'', AssociatedID = ''r3''\<rparr>]\<rparr>,
       STATS = \<lparr>Update = 1, Delete = 1, Skip = 0\<rparr>,
       new = [(''urn:ogf:glue2:access-ci.org:news:B'', make_news ex_cfg ''urn:ogf:glue2:access-ci.org:news:B'' ex_b)],
       new_assoc = [(''urn:ogf:glue2:access-ci.org:news:B->Resource/r3'',
                     \<lparr>pk = 3, NewsItem = ''urn:ogf:glue2:access-ci.org:news:B'',
                            AssociatedType = ''Resource'', AssociatedID = ''r3''\<rparr>)]\<rparr>,
      Returned True [])"
  by (simp add: run_defs ex_defs)

lemma ex_merge_b:
  "merge_outages ex_cfg [ex_b] =
     Inr ([ex_b\<lparr>ResourceID := None, AffectedInfrastructure := Some [''r3'']\<rparr>],
          [(''urn:ogf:glue2:access-ci.org:news:B'', 0)])"
  by (simp add: merge_outages_def merge_step_def is_legacy_def make_URN_def ex_defs)

lemma dup_pass1: "db (fst (Warehouse_XSEDE_News ex_cfg pl_ok empty_db no_stats [ex_r1, ex_r1])) = dup_db"
  by (simp add: run_defs ex_defs dup_db_def)

lemma dup_pass2:
  "Warehouse_XSEDE_News ex_cfg pl_ok dup_db no_stats [ex_r2] =
     (\<lparr>db = \<lparr>news_tbl = [make_news ex_cfg ''urn:ogf:glue2:access-ci.org:news:A'' ex_r2],
              assoc_tbl = [ex_assoc 1 ''r1'', ex_assoc 3 ''r2'']\<rparr>,
       STATS = \<lparr>Update = 1, Delete = 0, Skip = 0\<rparr>,
       new = [(''urn:ogf:glue2:access-ci.org:news:A'', make_news ex_cfg ''urn:ogf:glue2:access-ci.org:news:A'' ex_r2)],
       new_assoc = [(''urn:ogf:glue2:access-ci.org:news:A->Resource/r2'', ex_assoc 3 ''r2'')]\<rparr>,
      Returned True [])"
  by (simp add: run_defs ex_defs dup_db_def)

lemma clash_pass1: "db (fst (Warehouse_XSEDE_News ex_cfg pl_ok empty_db no_stats [ex_clash1])) = clash_db"
  by (simp add: run_defs ex_defs clash_db_def ex_clash1_def)

lemma clash_pass2:
  "Warehouse_XSEDE_News ex_cfg pl_ok clash_db no_stats [ex_clash2] =
     (\<lparr>db = \<lparr>news_tbl = [make_news ex_cfg ''urn:ogf:glue2:access-ci.org:news:A'' ex_clash2],
              assoc_tbl = []\<rparr>,
       STATS = \<lparr>Update = 1, Delete = 1, Skip = 0\<rparr>,
       new = [(''urn:ogf:glue2:access-ci.org:news:A'', make_news ex_cfg ''urn:ogf:glue2:access-ci.org:news:A'' ex_clash2)],
       new_assoc = [(''urn:ogf:glue2:access-ci.org:news:A->Resource/x->Resource/y'',
                     \<lparr>pk = 1, NewsItem = ''urn:ogf:glue2:access-ci.org:news:A->Resource/x'',
                    AssociatedType = ''Resource'', AssociatedID = ''y''\<rparr>)]\<rparr>,
      Returned True [])"
  by (simp add: run_defs ex_defs clash_db_def ex_clash1_def ex_clash2_def)









lemma OutageType_merged_record [simp]: "OutageType (merged_record cfg inp p) = OutageType p"
  by (simp add: merged_record_def)



lemma ex_merge_r2:
  "merge_outages ex_cfg [ex_r2] =
     Inr ([ex_r2\<lparr>ResourceID := None, AffectedInfrastructure := Some [''r2'']\<rparr>],
          [(''urn:ogf:glue2:access-ci.org:news:A'', 0)])"
  by (simp add: merge_outages_def merge_step_def is_legacy_def make_URN_def ex_defs)

lemma ex_merge_clash2:
  "merge_outages ex_cfg [ex_clash2] =
     Inr ([ex_clash2\<lparr>ResourceID := None, AffectedInfrastructure := Some [''x->Resource/y'']\<rparr>],
          [(''urn:ogf:glue2:access-ci.org:news:A'', 0)])"
  by (simp add: merge_outages_def merge_step_def is_legacy_def make_URN_def ex_defs ex_clash2_def)

section \<open>Reconciliation: the claims\<close>

text \<open>
  Claim C1, as stated: after every successful pass the keys of the stored associations
  under the prefix are the keys of the merged pairs. Two runs from the empty store show
  otherwise, with a store that accepts every call. First: a feed that lists resource
  \<^verbatim>\<open>r1\<close> twice for outage \<^verbatim>\<open>A\<close> leaves two rows of one key; the next pass, for
  \<^verbatim>\<open>A\<close> with \<^verbatim>\<open>r2\<close> only, reads one of them into \<^verbatim>\<open>cur_assoc\<close>, deletes that one, and
  the key of \<^verbatim>\<open>r1\<close> stays. Second: the association of outage \<^verbatim>\<open>A->Resource/x\<close> to
  \<^verbatim>\<open>y\<close> has the key of the pair of outage \<^verbatim>\<open>A\<close> and resource \<^verbatim>\<open>x->Resource/y\<close>; the pass
  for the latter takes the stored row for its own, and the row goes when its news item is
  deleted with cascade.
\<close>

theorem convergence_counterexample:
  "db (fst (Warehouse_XSEDE_News ex_cfg pl_ok empty_db no_stats [ex_r1, ex_r1])) = dup_db \<and>
   snd (Warehouse_XSEDE_News ex_cfg pl_ok dup_db no_stats [ex_r2]) = Returned True [] \<and>
   merge_outages ex_cfg [ex_r2] =
     Inr ([ex_r2\<lparr>ResourceID := None, AffectedInfrastructure := Some [''r2'']\<rparr>],
          [(''urn:ogf:glue2:access-ci.org:news:A'', 0)]) \<and>
   str_assoc ` {a \<in> set (assoc_tbl (db (fst (Warehouse_XSEDE_News ex_cfg pl_ok dup_db no_stats [ex_r2])))).
                  prefix (NEWSURNPREFIX ex_cfg) (NewsItem a)} =
     {''urn:ogf:glue2:access-ci.org:news:A->Resource/r1'', ''urn:ogf:glue2:access-ci.org:news:A->Resource/r2''} \<and>
   merged_keys (items [ex_r2\<lparr>ResourceID := None, AffectedInfrastructure := Some [''r2'']\<rparr>]
                      [(''urn:ogf:glue2:access-ci.org:news:A'', 0)]) =
     {''urn:ogf:glue2:access-ci.org:news:A->Resource/r2''} \<and>
   db (fst (Warehouse_XSEDE_News ex_cfg pl_ok empty_db no_stats [ex_clash1])) = clash_db \<and>
   snd (Warehouse_XSEDE_News ex_cfg pl_ok clash_db no_stats [ex_clash2]) = Returned True [] \<and>
   merge_outages ex_cfg [ex_clash2] =
     Inr ([ex_clash2\<lparr>ResourceID := None, AffectedInfrastructure := Some [''x->Resource/y'']\<rparr>],
          [(''urn:ogf:glue2:access-ci.org:news:A'', 0)]) \<and>
   str_assoc ` {a \<in> set (assoc_tbl (db (fst (Warehouse_XSEDE_News ex_cfg pl_ok clash_db no_stats [ex_clash2])))).
                  prefix (NEWSURNPREFIX ex_cfg) (NewsItem a)} = {} \<and>
   merged_keys (items [ex_clash2\<lparr>ResourceID := None, AffectedInfrastructure := Some [''x->Resource/y'']\<rparr>]
                      [(''urn:ogf:glue2:access-ci.org:news:A'', 0)]) =
     {''urn:ogf:glue2:access-ci.org:news:A->Resource/x->Resource/y''}"
proof -
  have k1: "merged_keys (items [ex_r2\<lparr>ResourceID := None, AffectedInfrastructure := Some [''r2'']\<rparr>]
                      [(''urn:ogf:glue2:access-ci.org:news:A'', 0)]) =
     {''urn:ogf:glue2:access-ci.org:news:A->Resource/r2''}"
    by (auto simp: merged_keys_def items_def assoc_key_def)
  have k2: "merged_keys (items [ex_clash2\<lparr>ResourceID := None, AffectedInfrastructure := Some [''x->Resource/y'']\<rparr>]
                      [(''urn:ogf:glue2:access-ci.org:news:A'', 0)]) =
     {''urn:ogf:glue2:access-ci.org:news:A->Resource/x->Resource/y''}"
    by (auto simp: merged_keys_def items_def assoc_key_def)
  have r1: "str_assoc ` {a \<in> set [ex_assoc 1 ''r1'', ex_assoc 3 ''r2'']. prefix (NEWSURNPREFIX ex_cfg) (NewsItem a)} =
     {''urn:ogf:glue2:access-ci.org:news:A->Resource/r1'', ''urn:ogf:glue2:access-ci.org:news:A->Resource/r2''}"
  proof -
    have "str_assoc ` {a \<in> set [ex_assoc 1 ''r1'', ex_assoc 3 ''r2'']. prefix (NEWSURNPREFIX ex_cfg) (NewsItem a)} =
          set (map str_assoc (filter (\<lambda>a. prefix (NEWSURNPREFIX ex_cfg) (NewsItem a))
                 [ex_assoc 1 ''r1'', ex_assoc 3 ''r2'']))"
      by (simp only: set_map set_filter)
    also have "\<dots> = {''urn:ogf:glue2:access-ci.org:news:A->Resource/r1'',
                      ''urn:ogf:glue2:access-ci.org:news:A->Resource/r2''}"
      by (simp add: str_assoc_def assoc_key_def ex_assoc_def ex_cfg_def)
    finally show ?thesis .
  qed
  show ?thesis
    unfolding dup_pass1 dup_pass2 clash_pass1 clash_pass2 k1 k2 ex_merge_r2 ex_merge_clash2
    using r1 by simp
qed

text \<open>
  Claim C1, amended. Let the association rows of the store have distinct primary keys and,
  under the output prefix, distinct keys (the identity invariant of the data model), and
  when deleting a news item cascades let no stored key be the key of a merged pair of
  another item. Then after a pass that returns \<open>Returned True []\<close> the URNs of the stored
  news items under the prefix are exactly the URNs of the merged batch, and the keys of the
  stored associations under the prefix are exactly the keys of the pairs of a URN and a
  resource of the merged batch, as sets.
\<close>

theorem convergence:
  assumes run: "Warehouse_XSEDE_News cfg pl d st inp = (s, Returned True [])"
    and mrg: "merge_outages cfg inp = Inr (objs, mo)"
    and dpk: "distinct (map pk (assoc_tbl d))"
    and dkey: "distinct (map str_assoc (filter (\<lambda>a. prefix (NEWSURNPREFIX cfg) (NewsItem a)) (assoc_tbl d)))"
    and clash: "cascade pl \<longrightarrow> no_key_clash cfg d (items objs mo)"
  shows "{u \<in> URN ` set (news_tbl (db s)). prefix (NEWSURNPREFIX cfg) u} = fst ` set (items objs mo) \<and>
         str_assoc ` {a \<in> set (assoc_tbl (db s)). prefix (NEWSURNPREFIX cfg) (NewsItem a)} =
           merged_keys (items objs mo)"
proof -
  let ?P = "NEWSURNPREFIX cfg"
  let ?its = "items objs mo"
  let ?ca = "load_cur_assoc cfg d"
  let ?cur = "load_cur cfg d"
  let ?s0 = "\<lparr>db = d, STATS = st, new = [], new_assoc = []\<rparr>"
  let ?rows = "filter (\<lambda>a. prefix ?P (NewsItem a)) (assoc_tbl d)"
  from Warehouse_Returned[OF run] obtain objs' mo' s1 s2
    where "merge_outages cfg inp = Inr (objs', mo')"
      and "news_loop cfg pl ?ca (items objs' mo') ?s0 = Continue s1"
      and dal: "delete_assoc_loop pl ?ca s1 = Continue s2"
      and dnl: "delete_news_loop pl ?cur s2 = Continue s"
    by blast
  with mrg have nl: "news_loop cfg pl ?ca ?its ?s0 = Continue s1" by simp
  have M: "\<forall>u\<in>fst ` set ?its. prefix ?P u" using merged_URNs_prefix[OF mrg] .
  have ca_None: "\<And>K. map_of ?ca K = None \<longleftrightarrow> K \<notin> str_assoc ` set ?rows"
    unfolding load_cur_assoc_set[OF dkey] by (simp add: map_of_None_keys image_image)
  \<comment> \<open>after the loop over the merged outages\<close>
  have n1: "URN ` set (news_tbl (db s1)) = URN ` set (news_tbl d) \<union> fst ` set ?its"
    and new1: "fst ` set (new s1) = fst ` set ?its"
    and na1: "fst ` set (new_assoc s1) = merged_keys ?its"
    using news_loop_sets[OF nl] by simp_all
  have mono1: "set (assoc_tbl d) \<subseteq> set (assoc_tbl (db s1))"
    using news_loop_mono[OF nl] by simp
  have cr1: "NewsItem a \<in> fst ` set ?its \<and> str_assoc a \<in> merged_keys ?its \<and> pk a \<notin> pk ` set (assoc_tbl d)"
    if "a \<in> set (assoc_tbl (db s1))" "a \<notin> set (assoc_tbl d)" for a
  proof -
    from news_loop_created[OF nl, of a] that
    have c: "NewsItem a \<in> fst ` set ?its" "str_assoc a \<in> merged_keys ?its"
      "fresh_pk (assoc_tbl d) \<le> pk a" by simp_all
    have "pk a \<notin> pk ` set (assoc_tbl d)"
    proof
      assume "pk a \<in> pk ` set (assoc_tbl d)"
      then obtain b where "b \<in> set (assoc_tbl d)" "pk b = pk a" by auto
      with fresh_pk_gt[of b "assoc_tbl d"] c(3) show False by simp
    qed
    with c show ?thesis by simp
  qed
  \<comment> \<open>the association rows that are deleted\<close>
  define D where "D = pk ` {a \<in> set ?rows. str_assoc a \<notin> merged_keys ?its}"
  have t2: "assoc_tbl (db s2) = filter (\<lambda>a. pk a \<notin> D) (assoc_tbl (db s1))"
    and n2: "news_tbl (db s2) = news_tbl (db s1)" and new2: "new s2 = new s1"
    using delete_assoc_loop_Continue[OF dal] unfolding pass_deletes[OF dkey na1] D_def by simp_all
  \<comment> \<open>the news rows that are deleted\<close>
  define DU where "DU = {u \<in> URN ` set (news_tbl d). prefix ?P u \<and> u \<notin> fst ` set ?its}"
  have new2': "fst ` set (new s2) = fst ` set ?its" using new1 new2 by simp
  have n3: "news_tbl (db s) = filter (\<lambda>n. URN n \<notin> DU) (news_tbl (db s2))"
    and t3: "assoc_tbl (db s) =
       (if cascade pl then filter (\<lambda>a. NewsItem a \<notin> DU) (assoc_tbl (db s2)) else assoc_tbl (db s2))"
    using delete_news_loop_Continue[OF dnl] unfolding pass_deletes_news[OF new2'] DU_def by simp_all
  \<comment> \<open>the news rows\<close>
  have news: "{u \<in> URN ` set (news_tbl (db s)). prefix ?P u} = fst ` set ?its"
  proof (intro set_eqI iffI)
    fix u assume "u \<in> {u \<in> URN ` set (news_tbl (db s)). prefix ?P u}"
    then have "u \<in> URN ` set (news_tbl (db s1))" "u \<notin> DU" "prefix ?P u"
      by (auto simp: n3 n2)
    then show "u \<in> fst ` set ?its" unfolding n1 DU_def by blast
  next
    fix u assume u: "u \<in> fst ` set ?its"
    then have "u \<in> URN ` set (news_tbl (db s1))" "u \<notin> DU" unfolding n1 DU_def by auto
    moreover have "prefix ?P u" using M u by blast
    ultimately show "u \<in> {u \<in> URN ` set (news_tbl (db s)). prefix ?P u}"
      by (auto simp: n3 n2)
  qed
  \<comment> \<open>the association rows\<close>
  have in3: "a \<in> set (assoc_tbl (db s)) \<longleftrightarrow>
      a \<in> set (assoc_tbl (db s1)) \<and> pk a \<notin> D \<and> (cascade pl \<longrightarrow> NewsItem a \<notin> DU)" for a
    by (simp add: t3 t2)
  have assoc: "str_assoc ` {a \<in> set (assoc_tbl (db s)). prefix ?P (NewsItem a)} = merged_keys ?its"
  proof (intro set_eqI iffI)
    fix K assume "K \<in> str_assoc ` {a \<in> set (assoc_tbl (db s)). prefix ?P (NewsItem a)}"
    then obtain a where a: "a \<in> set (assoc_tbl (db s))" "prefix ?P (NewsItem a)" "K = str_assoc a"
      by auto
    from a(1) have a1: "a \<in> set (assoc_tbl (db s1))" and aD: "pk a \<notin> D" by (simp_all add: in3)
    show "K \<in> merged_keys ?its"
    proof (cases "a \<in> set (assoc_tbl d)")
      case True
      with a(2) have "a \<in> set ?rows" by simp
      with aD show ?thesis unfolding D_def a(3) by blast
    next
      case False
      from cr1[OF a1 False] show ?thesis by (simp add: a(3))
    qed
  next
    fix K assume K: "K \<in> merged_keys ?its"
    then obtain u p rs r where k: "(u, p) \<in> set ?its" "AffectedInfrastructure p = Some rs"
      "r \<in> set rs" "K = assoc_key u ''Resource'' r"
      unfolding merged_keys_def by blast
    have uM: "u \<in> fst ` set ?its" using k(1) by (rule image_eqI[rotated]) simp
    have "\<exists>a. a \<in> set (assoc_tbl (db s1)) \<and> str_assoc a = K \<and> prefix ?P (NewsItem a) \<and> pk a \<notin> D \<and>
            (cascade pl \<longrightarrow> NewsItem a \<in> fst ` set ?its)"
    proof (cases "K \<in> str_assoc ` set ?rows")
      case True
      then obtain a where a: "a \<in> set ?rows" "str_assoc a = K" by auto
      then have ad: "a \<in> set (assoc_tbl d)" and ap: "prefix ?P (NewsItem a)" by simp_all
      have "pk a \<notin> D"
      proof
        assume "pk a \<in> D"
        then obtain b where b: "b \<in> set ?rows" "str_assoc b \<notin> merged_keys ?its" "pk b = pk a"
          unfolding D_def by auto
        then have "b \<in> set (assoc_tbl d)" by simp
        with dpk ad b(3) have "a = b" by (simp add: distinct_map inj_on_def)
        with b(2) a(2) K show False by simp
      qed
      moreover have "cascade pl \<longrightarrow> NewsItem a \<in> fst ` set ?its"
      proof
        assume "cascade pl"
        with clash have "no_key_clash cfg d ?its" by simp
        with ad ap k a(2) have "NewsItem a = u" unfolding no_key_clash_def by blast
        with uM show "NewsItem a \<in> fst ` set ?its" by simp
      qed
      ultimately show ?thesis using a(2) ad ap mono1 by blast
    next
      case False
      then have "map_of ?ca (assoc_key u ''Resource'' r) = None" using ca_None k(4) by simp
      from news_loop_creates[OF nl k(1,2,3) this] obtain a
        where a: "a \<in> set (assoc_tbl (db s1))" "str_assoc a = K" "NewsItem a = u"
        using k(4) by auto
      have ap: "prefix ?P (NewsItem a)" using a(3) M uM by blast
      have "a \<notin> set (assoc_tbl d)"
      proof
        assume "a \<in> set (assoc_tbl d)"
        with ap have "a \<in> set ?rows" by simp
        with a(2) False show False by auto
      qed
      from cr1[OF a(1) this] have "pk a \<notin> pk ` set (assoc_tbl d)" by simp
      moreover have "D \<subseteq> pk ` set (assoc_tbl d)" unfolding D_def by auto
      ultimately show ?thesis using a ap uM by blast
    qed
    then obtain a where a: "a \<in> set (assoc_tbl (db s1))" "str_assoc a = K" "prefix ?P (NewsItem a)"
      "pk a \<notin> D" "cascade pl \<longrightarrow> NewsItem a \<in> fst ` set ?its" by blast
    have "cascade pl \<longrightarrow> NewsItem a \<notin> DU" using a(5) unfolding DU_def by simp
    with a have "a \<in> set (assoc_tbl (db s))" by (simp add: in3)
    with a(2,3) show "K \<in> str_assoc ` {a \<in> set (assoc_tbl (db s)). prefix ?P (NewsItem a)}" by blast
  qed
  from news assoc show ?thesis by simp
qed

theorem convergence_witness:
  "{u \<in> URN ` set (news_tbl (db (fst (Warehouse_XSEDE_News ex_cfg pl_ok ex_db1 no_stats [ex_b])))).
      prefix (NEWSURNPREFIX ex_cfg) u} = {''urn:ogf:glue2:access-ci.org:news:B''} \<and>
   str_assoc ` {a \<in> set (assoc_tbl (db (fst (Warehouse_XSEDE_News ex_cfg pl_ok ex_db1 no_stats [ex_b])))).
      prefix (NEWSURNPREFIX ex_cfg) (NewsItem a)} = {''urn:ogf:glue2:access-ci.org:news:B->Resource/r3''}"
proof -
  have dpk: "distinct (map pk (assoc_tbl ex_db1))" by (simp add: ex_defs)
  have dkey: "distinct (map str_assoc
      (filter (\<lambda>a. prefix (NEWSURNPREFIX ex_cfg) (NewsItem a)) (assoc_tbl ex_db1)))"
    by (simp add: ex_defs str_assoc_def assoc_key_def)
  have clash: "cascade pl_ok \<longrightarrow> no_key_clash ex_cfg ex_db1
      (items [ex_b\<lparr>ResourceID := None, AffectedInfrastructure := Some [''r3'']\<rparr>]
             [(''urn:ogf:glue2:access-ci.org:news:B'', 0)])"
    by (auto simp: no_key_clash_def items_def ex_defs str_assoc_def assoc_key_def)
  have k: "merged_keys (items [ex_b\<lparr>ResourceID := None, AffectedInfrastructure := Some [''r3'']\<rparr>]
             [(''urn:ogf:glue2:access-ci.org:news:B'', 0)]) = {''urn:ogf:glue2:access-ci.org:news:B->Resource/r3''}"
    by (auto simp: merged_keys_def items_def assoc_key_def)
  from convergence[OF ex_pass2 ex_merge_b dpk dkey clash] show ?thesis
    unfolding k ex_pass2 by (simp add: items_def)
qed

text \<open>
  Claim C2, as stated: a pass whose fetched batch is empty deletes the entity and its two
  associations and counts one deletion. It does not: \<^verbatim>\<open>Run\<close> tests \<^verbatim>\<open>if SOURCE_DATA:\<close>,
  which the empty list fails, so the reconciliation is not called; the store made by the
  pass over the two example records is left as it is and the counters stay at zero.
\<close>

theorem empty_fetch_deletes_nothing:
  "db (fst (Warehouse_XSEDE_News ex_cfg pl_ok empty_db no_stats [ex_r1, ex_r2])) = ex_db1 \<and>
   length (news_tbl ex_db1) = 1 \<and> length (assoc_tbl ex_db1) = 2 \<and>
   Run_once ex_cfg pl_ok ex_db1 (Some []) = (ex_db1, \<lparr>Update = 0, Delete = 0, Skip = 0\<rparr>, None)"
  by (simp add: ex_pass1 Run_once_def) (simp add: ex_db1_def)

text \<open>
  Claim C2, amended. For a store of one news item under the prefix and two associations of
  it with different keys, and a persistence layer that raises nothing:
  \<^verbatim>\<open>Warehouse_XSEDE_News\<close> called on an empty batch, and a pass of \<^verbatim>\<open>Run\<close> whose fetched
  batch is not empty but has no record with the input prefix, delete the news item and
  both associations and count one deletion; a pass of \<^verbatim>\<open>Run\<close> whose fetched batch is empty
  changes nothing.
\<close>

theorem nothing_merged_deletes_all:
  assumes "news_tbl d = [n]" and "assoc_tbl d = [a1, a2]"
    and "prefix (NEWSURNPREFIX cfg) (URN n)"
    and "NewsItem a1 = URN n" and "NewsItem a2 = URN n"
    and "pk a1 \<noteq> pk a2" and "str_assoc a1 \<noteq> str_assoc a2"
    and "\<forall>p\<in>set inp. \<not> is_legacy cfg p"
    and "\<forall>d' c. raises pl d' c = None"
  shows "Warehouse_XSEDE_News cfg pl d st [] =
           (\<lparr>db = \<lparr>news_tbl = [], assoc_tbl = []\<rparr>,
             STATS = st\<lparr>Delete := Suc (Delete st)\<rparr>, new = [], new_assoc = []\<rparr>,
            Returned True []) \<and>
         (inp \<noteq> [] \<longrightarrow>
            Run_once cfg pl d (Some inp) =
              (\<lparr>news_tbl = [], assoc_tbl = []\<rparr>, \<lparr>Update = 0, Delete = 1, Skip = 0\<rparr>,
               Some (Returned True []))) \<and>
         Run_once cfg pl d (Some []) = (d, \<lparr>Update = 0, Delete = 0, Skip = 0\<rparr>, None)"
proof (intro conjI impI)
  show "Warehouse_XSEDE_News cfg pl d st [] =
           (\<lparr>db = \<lparr>news_tbl = [], assoc_tbl = []\<rparr>,
             STATS = st\<lparr>Delete := Suc (Delete st)\<rparr>, new = [], new_assoc = []\<rparr>,
            Returned True [])"
    using Warehouse_nothing_merged[OF assms(1-7) _ assms(9), of "[]" st] by simp
  show "Run_once cfg pl d (Some []) = (d, \<lparr>Update = 0, Delete = 0, Skip = 0\<rparr>, None)"
    by (simp add: Run_once_def)
  assume "inp \<noteq> []"
  then obtain q qs where i: "inp = q # qs" by (cases inp) auto
  show "Run_once cfg pl d (Some inp) =
              (\<lparr>news_tbl = [], assoc_tbl = []\<rparr>, \<lparr>Update = 0, Delete = 1, Skip = 0\<rparr>,
               Some (Returned True []))"
    using Warehouse_nothing_merged[OF assms(1-7) assms(8) assms(9), of "\<lparr>Update = 0, Delete = 0, Skip = 0\<rparr>"]
    by (simp add: Run_once_def i)
qed

theorem nothing_merged_deletes_all_witness:
  "Warehouse_XSEDE_News ex_cfg pl_ok ex_db1 no_stats [] =
     (\<lparr>db = empty_db, STATS = \<lparr>Update = 0, Delete = 1, Skip = 0\<rparr>, new = [], new_assoc = []\<rparr>,
      Returned True []) \<and>
   Run_once ex_cfg pl_ok ex_db1 (Some [ex_other]) =
     (empty_db, \<lparr>Update = 0, Delete = 1, Skip = 0\<rparr>, Some (Returned True []))"
  using nothing_merged_deletes_all[of ex_db1 ex_news_A "ex_assoc 1 ''r1''" "ex_assoc 2 ''r2''" ex_cfg
      "[ex_other]" pl_ok no_stats]
  by (simp add: ex_defs make_news_def str_assoc_def assoc_key_def is_legacy_def)

text \<open>
  Claim C3 fails on the code. The test of line 342 looks a key up in the associations read
  at the start of the pass, not in those saved during the pass. A resource listed twice
  for one outage is therefore saved twice: with a store that accepts the second row, two
  rows of the same identity exist after the pass; with a store that rejects it, the pass
  ends in the handler of line 352 with an exception.
\<close>

theorem duplicate_resource_duplicate_rows:
  "Warehouse_XSEDE_News ex_cfg pl_ok empty_db no_stats [ex_r1, ex_r1] =
     (\<lparr>db = \<lparr>news_tbl = [ex_news_A], assoc_tbl = [ex_assoc 1 ''r1'', ex_assoc 2 ''r1'']\<rparr>,
       STATS = \<lparr>Update = 1, Delete = 0, Skip = 0\<rparr>,
       new = [(''urn:ogf:glue2:access-ci.org:news:A'', ex_news_A)],
       new_assoc = [(''urn:ogf:glue2:access-ci.org:news:A->Resource/r1'', ex_assoc 2 ''r1'')]\<rparr>,
      Returned True []) \<and>
   snd (Warehouse_XSEDE_News ex_cfg pl_unique empty_db no_stats [ex_r1, ex_r1]) = Raised AttributeError"
  by (simp add: run_defs ex_defs)

text \<open>
  Claim C4 fails on the code in what the pass returns. When the store rejects the write of
  a news item, nothing more is written, but the handler of lines 332-335 raises
  \<^verbatim>\<open>AttributeError\<close> while it builds the message, so the pair of \<open>False\<close> and a message
  is never returned: no call of \<^verbatim>\<open>Warehouse_XSEDE_News\<close> returns \<open>False\<close>. Were the
  attribute there, the template of the message, with four fields for three arguments,
  would raise \<^verbatim>\<open>IndexError\<close>.
\<close>

theorem upsert_failure_never_returns:
  "Warehouse_XSEDE_News ex_cfg pl_upsert_B_fails empty_db no_stats [ex_r1, ex_b] =
     (\<lparr>db = \<lparr>news_tbl = [ex_news_A], assoc_tbl = [ex_assoc 1 ''r1'']\<rparr>,
       STATS = \<lparr>Update = 1, Delete = 0, Skip = 0\<rparr>,
       new = [(''urn:ogf:glue2:access-ci.org:news:A'', ex_news_A)],
       new_assoc = [(''urn:ogf:glue2:access-ci.org:news:A->Resource/r1'', ex_assoc 1 ''r1'')]\<rparr>,
      Raised AttributeError) \<and>
   (\<forall>cfg pl d st inp s msg. Warehouse_XSEDE_News cfg pl d st inp \<noteq> (s, Returned False msg)) \<and>
   (\<forall>what a b c. py_format ['''', '' saving '' @ what, '' ('', ''): '', ''''] [a, b, c] = Inl IndexError)"
proof (intro conjI)
  show "Warehouse_XSEDE_News ex_cfg pl_upsert_B_fails empty_db no_stats [ex_r1, ex_b] =
     (\<lparr>db = \<lparr>news_tbl = [ex_news_A], assoc_tbl = [ex_assoc 1 ''r1'']\<rparr>,
       STATS = \<lparr>Update = 1, Delete = 0, Skip = 0\<rparr>,
       new = [(''urn:ogf:glue2:access-ci.org:news:A'', ex_news_A)],
       new_assoc = [(''urn:ogf:glue2:access-ci.org:news:A->Resource/r1'', ex_assoc 1 ''r1'')]\<rparr>,
      Raised AttributeError)"
    by (simp add: run_defs ex_defs)
  show "\<forall>cfg pl d st inp s msg. Warehouse_XSEDE_News cfg pl d st inp \<noteq> (s, Returned False msg)"
    using Warehouse_Returned by blast
  show "\<forall>what a b c. py_format ['''', '' saving '' @ what, '' ('', ''): '', ''''] [a, b, c] = Inl IndexError"
    by simp
qed

text \<open>
  Claim C5 fails on the code. When the store rejects the deletion of an association, the
  handler of lines 363-364 raises \<^verbatim>\<open>AttributeError\<close> while it builds the log message: the
  pass stops there, the news item that is no longer in the feed stays, and the pass does
  not return. The handler of a rejected news deletion is the same.
\<close>

theorem delete_failure_is_fatal:
  "Warehouse_XSEDE_News ex_cfg pl_delete_assoc_fails ex_db1 no_stats [ex_other] =
     (\<lparr>db = ex_db1, STATS = no_stats, new = [], new_assoc = []\<rparr>, Raised AttributeError) \<and>
   (\<forall>what k e. on_delete_error what k e = Some AttributeError)"
  by (simp add: run_defs ex_defs)

section \<open>Classification: the claim\<close>

text \<open>
  A date that \<^verbatim>\<open>parse_datetime\<close> refuses ends the pass at lines 320-321: the handler
  of line 332 catches \<^verbatim>\<open>DataError\<close> and \<^verbatim>\<open>IntegrityError\<close> only.
\<close>

lemma bad_date_raises:
  "parse_datetime_raises pl (OutageStart p) = Some x \<or>
   parse_datetime_raises pl (OutageStart p) = None \<and> parse_datetime_raises pl (OutageEnd p) = Some x \<Longrightarrow>
   news_loop cfg pl cur_assoc ((urn, p) # its) s = Exit s (Raised x)"
  by auto

lemma bad_date_example:
  "snd (Warehouse_XSEDE_News ex_cfg
          (pl_ok\<lparr>parse_datetime_raises := (\<lambda>t. if t = ''2023-02-30T00:00:00'' then Some ValueError else None)\<rparr>)
          empty_db no_stats [ex_r1\<lparr>OutageStart := ''2023-02-30T00:00:00''\<rparr>]) = Raised ValueError"
  by (simp add: run_defs ex_defs)



end
